theory Spec2Isabelle
  imports Complex_Main
begin

section \<open>Conventions of the embedding\<close>

text \<open>
  The library is JavaScript. Its numbers are modelled as mathematical reals (\<open>real\<close>), its
  array indices and loop counters as \<open>nat\<close> or \<open>int\<close>; rounding of IEEE doubles, \<open>NaN\<close> and
  the infinities are outside the model, except in the section on the distance metrics,
  which computes in doubles. \<open>Math.random()\<close> is a stream \<open>rnd :: nat \<Rightarrow> real\<close>
  read through a counter that every call advances. An operation of the source that throws,
  reads an undefined array cell or never returns gives an \<open>Inl\<close> value of type \<open>failure\<close>.
\<close>

datatype failure =
  TypeError        \<comment> \<open>a property of \<open>undefined\<close> is read or written\<close>
| UndefinedRead    \<comment> \<open>an undefined array cell enters arithmetic (the source goes on with \<open>NaN\<close>)\<close>
| NoReturn         \<comment> \<open>a loop whose counter never reaches its bound\<close>
| FractionalStep   \<comment> \<open>a loop counter leaves the integers\<close>

definition bind_js :: "failure + 'a \<Rightarrow> ('a \<Rightarrow> failure + 'b) \<Rightarrow> failure + 'b" where
  "bind_js m f = (case m of Inl e \<Rightarrow> Inl e | Inr v \<Rightarrow> f v)"

text \<open>
  \<open>THREE.Vector2\<close> and \<open>THREE.Vector3\<close>, the host library's points. Their fields \<open>x\<close>, \<open>y\<close>
  and \<open>z\<close> are \<open>vx\<close>, \<open>vy\<close> for a \<open>Vector2\<close> and \<open>px\<close>, \<open>py\<close>, \<open>pz\<close> for a \<open>Vector3\<close>.
\<close>

record vector2 =
  vx :: real
  vy :: real

record vector3 =
  px :: real
  py :: real
  pz :: real

section \<open>core.js: \<open>THREE.Terrain.fromArray1D\<close>\<close>

text \<open>
  \<open>for (var i = 0, l = Math.min(vertices.length / 3, src.length); i < l; i++)
      vertices[i * 3 + 2] = src[i];\<close>
  The bound \<open>l\<close> is a real number: \<open>vertices.length / 3\<close> is not rounded. \<open>vertices\<close> is a
  \<open>Float32Array\<close>, whose length is fixed: a store at an index beyond its length is ignored,
  which is what \<open>list_update\<close> does on a list.
\<close>

function fromArray1D_loop :: "real \<Rightarrow> nat \<Rightarrow> real list \<Rightarrow> real list \<Rightarrow> real list" where
  "fromArray1D_loop l i vertices src =
     (if real i < l
      then fromArray1D_loop l (i + 1) (vertices[i * 3 + 2 := src ! i]) src
      else vertices)"
  by pat_completeness auto
termination
proof (relation "measure (\<lambda>(l, i, vertices, src). nat \<lceil>l\<rceil> - i)")
  fix l :: real and i :: nat
  assume "real i < l"
  then have "int i < \<lceil>l\<rceil>" by (simp add: less_ceiling_iff)
  then show "((l, i + 1, vertices[i * 3 + 2 := src ! i], src), (l, i, vertices, src))
      \<in> measure (\<lambda>(l, i, vertices, src). nat \<lceil>l\<rceil> - i)" for vertices src :: "real list"
    by simp
qed simp

definition fromArray1D :: "real list \<Rightarrow> real list \<Rightarrow> real list" where
  "fromArray1D vertices src =
     fromArray1D_loop (min (real (length vertices) / 3) (real (length src))) 0 vertices src"

declare fromArray1D_loop.simps [simp del]

lemma fromArray1D_loop_length:
  "length (fromArray1D_loop l i vertices src) = length vertices"
proof (induction l i vertices src rule: fromArray1D_loop.induct)
  case (1 l i vertices src)
  show ?case
  proof (cases "real i < l")
    case True
    with 1 show ?thesis by (subst fromArray1D_loop.simps) simp
  next
    case False
    then show ?thesis by (subst fromArray1D_loop.simps) simp
  qed
qed

lemma fromArray1D_loop_nth:
  "k < length vertices \<Longrightarrow>
   fromArray1D_loop l i vertices src ! k =
     (if k mod 3 = 2 \<and> i \<le> k div 3 \<and> real (k div 3) < l then src ! (k div 3) else vertices ! k)"
proof (induction l i vertices src rule: fromArray1D_loop.induct)
  case (1 l i vertices src)
  show ?case
  proof (cases "real i < l")
    case False
    then have "\<not> (i \<le> k div 3 \<and> real (k div 3) < l)" by auto
    with False show ?thesis by (subst fromArray1D_loop.simps) auto
  next
    case True
    have written: "k = i * 3 + 2 \<longleftrightarrow> k mod 3 = 2 \<and> k div 3 = i" by presburger
    from True 1 have
      "fromArray1D_loop l (i + 1) (vertices[i * 3 + 2 := src ! i]) src ! k =
         (if k mod 3 = 2 \<and> i + 1 \<le> k div 3 \<and> real (k div 3) < l then src ! (k div 3)
          else vertices[i * 3 + 2 := src ! i] ! k)"
      by simp
    moreover have "fromArray1D_loop l i vertices src =
        fromArray1D_loop l (i + 1) (vertices[i * 3 + 2 := src ! i]) src"
      using True by (subst fromArray1D_loop.simps) simp
    ultimately show ?thesis
      using True "1.prems" written by (auto simp: nth_list_update)
  qed
qed

text \<open>
  C10. \<open>fromArray1D\<close> keeps the length of the vertex buffer and changes only the components
  at the indices \<open>3*i+2\<close> with \<open>i < min(vertices.length/3, src.length)\<close>, where it stores
  \<open>src[i]\<close>; every other component (the x and y components, and everything beyond the
  copied prefix) keeps its value.
\<close>

theorem fromArray1D_frame:
  "length (fromArray1D vertices src) = length vertices \<and>
   (\<forall>k < length vertices.
      fromArray1D vertices src ! k =
        (if k mod 3 = 2 \<and> real (k div 3) < min (real (length vertices) / 3) (real (length src))
         then src ! (k div 3) else vertices ! k))"
  by (simp add: fromArray1D_def fromArray1D_loop_length fromArray1D_loop_nth)

theorem fromArray1D_frame_witness:
  "fromArray1D [1, 2, 3, 4, 5, 6, 7, 8, 9] [10, 20] ! 3 = 4 \<and>
   fromArray1D [1, 2, 3, 4, 5, 6, 7, 8, 9] [10, 20] ! 5 = 20 \<and>
   fromArray1D [1, 2, 3, 4, 5, 6, 7, 8, 9] [10, 20] ! 8 = 9"
proof -
  let ?v = "[1, 2, 3, 4, 5, 6, 7, 8, 9] :: real list" and ?s = "[10, 20] :: real list"
  have "fromArray1D ?v ?s ! 3 = ?v ! 3" "fromArray1D ?v ?s ! 5 = ?s ! (5 div 3)"
    "fromArray1D ?v ?s ! 8 = ?v ! 8"
    using fromArray1D_frame [of ?v ?s] by simp_all
  then show ?thesis by simp
qed

section \<open>The distance metrics of the Worley module\<close>

text \<open>
  \<open>distanceToManhattan\<close>, \<open>distanceToChebyshev\<close> and \<open>distanceToQuadratic\<close> are methods added
  to \<open>THREE.Vector2.prototype\<close>; the receiver \<open>this\<close> is the first argument here. Whether
  they vanish depends on the rounding of their products, so this section computes them in
  the arithmetic of JavaScript numbers.
\<close>

subsection \<open>JavaScript numbers\<close>

text \<open>
  A JavaScript number is an IEEE 754 binary64 value: a finite double, an infinity or \<open>NaN\<close>.
  The finite doubles are the reals \<open>m \<times> 2\<^sup>e\<close> with \<open>\<bar>m\<bar> < 2\<^sup>5\<^sup>3\<close> and \<open>-1074 \<le> e \<le> 971\<close>. The two
  zeros are one value here: \<open>Math.abs\<close>, \<open><=\<close> and the products and sums of non-negative
  numbers below give the same result for either.

  Every arithmetic operation rounds its exact result to the nearest double, and to the one
  with an even significand when two are equally near. \<open>round_ties_even\<close> is that rounding
  on the integers.
\<close>

definition round_ties_even :: "real \<Rightarrow> int" where
  "round_ties_even r =
     (let f = \<lfloor>r\<rfloor> in
      if r - of_int f < 1 / 2 then f
      else if 1 / 2 < r - of_int f then f + 1
      else if even f then f else f + 1)"

text \<open>
  The exponent of a double lies between \<open>double_emin\<close> and \<open>double_emax\<close>.
  \<open>double_exponent x\<close> is the largest \<open>e\<close> in that range with \<open>2\<^sup>e \<le> \<bar>x\<bar>\<close>, and \<open>double_emin\<close>
  for the subnormal \<open>x\<close> below \<open>2\<^sup>-\<^sup>1\<^sup>0\<^sup>2\<^sup>2\<close>; the doubles around \<open>x\<close> are \<open>double_ulp x\<close> apart
  (the significand has 52 fraction bits).
\<close>

definition double_emin :: int where
  "double_emin = - 1022"

definition double_emax :: int where
  "double_emax = 1023"

primrec exponent_from :: "nat \<Rightarrow> real \<Rightarrow> int" where
  "exponent_from 0 x = double_emin"
| "exponent_from (Suc n) x =
     (if 2 powi (double_emin + int (Suc n)) \<le> x then double_emin + int (Suc n)
      else exponent_from n x)"

definition double_exponent :: "real \<Rightarrow> int" where
  "double_exponent x = exponent_from (nat (double_emax - double_emin)) \<bar>x\<bar>"

definition double_ulp :: "real \<Rightarrow> real" where
  "double_ulp x = 2 powi (double_exponent x - 52)"

text \<open>
  \<open>to_double x\<close> is the double nearest to the real \<open>x\<close>, or \<open>None\<close> when the rounded value
  reaches \<open>2\<^sup>1\<^sup>0\<^sup>2\<^sup>4\<close> and the operation overflows. \<open>is_double x\<close> says that \<open>x\<close> is a finite
  double. \<open>double_min\<close> is the smallest positive double, and \<open>double_tiny\<close>, half of it, is the
  largest magnitude that rounds to zero.
\<close>

definition to_double :: "real \<Rightarrow> real option" where
  "to_double x =
     (if x = 0 then Some 0
      else let ulp = double_ulp x;
               y = of_int (round_ties_even (x / ulp)) * ulp
           in if 2 powi (double_emax + 1) \<le> \<bar>y\<bar> then None else Some y)"

definition is_double :: "real \<Rightarrow> bool" where
  "is_double x \<longleftrightarrow> to_double x = Some x"

definition double_min :: real where
  "double_min = 2 powi (- 1074)"

definition double_tiny :: real where
  "double_tiny = 2 powi (- 1075)"

text \<open>
  The values of an expression. \<open>round_js\<close> is the result of an operation whose exact value is
  the real \<open>x\<close>: an overflow gives the infinity of the sign of \<open>x\<close>.
\<close>

datatype jsnum = Finite real | PosInfinity | NegInfinity | NaN

definition round_js :: "real \<Rightarrow> jsnum" where
  "round_js x =
     (case to_double x of
        Some y \<Rightarrow> Finite y
      | None \<Rightarrow> if 0 < x then PosInfinity else NegInfinity)"

text \<open>
  The operators of the three methods. The coordinates of a \<open>Vector2\<close> are finite, so \<open>-\<close>
  takes two reals; \<open>Math.abs\<close>, \<open>+\<close>, \<open>*\<close> and \<open><=\<close> take the results of earlier operations,
  with the IEEE rules for the infinities and \<open>NaN\<close>: \<open>\<infinity> + (-\<infinity>)\<close> and \<open>\<infinity> * 0\<close> are \<open>NaN\<close>, and a
  comparison with \<open>NaN\<close> is false.
\<close>

definition js_sub :: "real \<Rightarrow> real \<Rightarrow> jsnum" where
  "js_sub x y = round_js (x - y)"

fun js_abs :: "jsnum \<Rightarrow> jsnum" where
  "js_abs (Finite x) = Finite \<bar>x\<bar>"
| "js_abs PosInfinity = PosInfinity"
| "js_abs NegInfinity = PosInfinity"
| "js_abs NaN = NaN"

fun js_add :: "jsnum \<Rightarrow> jsnum \<Rightarrow> jsnum" where
  "js_add (Finite x) (Finite y) = round_js (x + y)"
| "js_add NaN v = NaN"
| "js_add u NaN = NaN"
| "js_add PosInfinity NegInfinity = NaN"
| "js_add NegInfinity PosInfinity = NaN"
| "js_add PosInfinity v = PosInfinity"
| "js_add u PosInfinity = PosInfinity"
| "js_add NegInfinity v = NegInfinity"
| "js_add u NegInfinity = NegInfinity"

fun js_sgn :: "jsnum \<Rightarrow> real" where
  "js_sgn (Finite x) = sgn x"
| "js_sgn PosInfinity = 1"
| "js_sgn NegInfinity = - 1"
| "js_sgn NaN = 0"

fun js_mul :: "jsnum \<Rightarrow> jsnum \<Rightarrow> jsnum" where
  "js_mul (Finite x) (Finite y) = round_js (x * y)"
| "js_mul NaN v = NaN"
| "js_mul u NaN = NaN"
| "js_mul u v =
     (if js_sgn u * js_sgn v = 0 then NaN
      else if 0 < js_sgn u * js_sgn v then PosInfinity else NegInfinity)"

fun js_le :: "jsnum \<Rightarrow> jsnum \<Rightarrow> bool" where
  "js_le (Finite x) (Finite y) \<longleftrightarrow> x \<le> y"
| "js_le NaN v \<longleftrightarrow> False"
| "js_le u NaN \<longleftrightarrow> False"
| "js_le NegInfinity v \<longleftrightarrow> True"
| "js_le u PosInfinity \<longleftrightarrow> True"
| "js_le u v \<longleftrightarrow> False"

subsection \<open>The three metrics\<close>

text \<open>
  \<open>return Math.abs(this.x - b.x) + Math.abs(this.y - b.y);\<close> for the first, and
  \<open>var c = Math.abs(this.x - b.x), d = Math.abs(this.y - b.y);\<close> followed by
  \<open>return c <= d ? d : c;\<close> and by \<open>return c*c + c*d + d*d;\<close> for the other two. The sum
  \<open>c*c + c*d + d*d\<close> is evaluated from the left.
\<close>

definition distanceToManhattan :: "vector2 \<Rightarrow> vector2 \<Rightarrow> jsnum" where
  "distanceToManhattan this b =
     js_add (js_abs (js_sub (vx this) (vx b))) (js_abs (js_sub (vy this) (vy b)))"

definition distanceToChebyshev :: "vector2 \<Rightarrow> vector2 \<Rightarrow> jsnum" where
  "distanceToChebyshev this b =
     (let c = js_abs (js_sub (vx this) (vx b));
          d = js_abs (js_sub (vy this) (vy b))
      in if js_le c d then d else c)"

definition distanceToQuadratic :: "vector2 \<Rightarrow> vector2 \<Rightarrow> jsnum" where
  "distanceToQuadratic this b =
     (let c = js_abs (js_sub (vx this) (vx b));
          d = js_abs (js_sub (vy this) (vy b))
      in js_add (js_add (js_mul c c) (js_mul c d)) (js_mul d d))"

text \<open>
  The values that \<open>Math.abs\<close> and the sums and products of such values can take, \<open>NaN\<close>
  apart: \<open>+\<infinity>\<close> and the non-negative multiples of \<open>double_min\<close>.
\<close>

definition magnitude :: "jsnum \<Rightarrow> bool" where
  "magnitude v =
     (case v of
        Finite s \<Rightarrow> 0 \<le> s \<and> of_int \<lfloor>s / double_min\<rfloor> * double_min = s
      | PosInfinity \<Rightarrow> True
      | _ \<Rightarrow> False)"

subsection \<open>Rounding to a double\<close>

lemma round_ties_even_of_int [simp]: "round_ties_even (of_int n) = n"
  by (simp add: round_ties_even_def)

lemma round_ties_even_error: "\<bar>of_int (round_ties_even r) - r\<bar> \<le> 1 / 2"
proof -
  have "of_int \<lfloor>r\<rfloor> \<le> r" "r < of_int \<lfloor>r\<rfloor> + 1" by linarith+
  then show ?thesis by (auto simp: round_ties_even_def Let_def)
qed

lemma round_ties_even_nonneg: "0 \<le> r \<Longrightarrow> 0 \<le> round_ties_even r"
  by (auto simp: round_ties_even_def Let_def)

lemma round_ties_even_zero_iff: "round_ties_even r = 0 \<longleftrightarrow> \<bar>r\<bar> \<le> 1 / 2"
proof
  assume "round_ties_even r = 0"
  with round_ties_even_error [of r] show "\<bar>r\<bar> \<le> 1 / 2" by simp
next
  assume small: "\<bar>r\<bar> \<le> 1 / 2"
  show "round_ties_even r = 0"
  proof (cases "0 \<le> r")
    case True
    with small have "\<lfloor>r\<rfloor> = 0" by (simp add: floor_eq_iff)
    with small True show ?thesis by (auto simp: round_ties_even_def Let_def)
  next
    case False
    with small have "\<lfloor>r\<rfloor> = - 1" by (simp add: floor_eq_iff)
    with small False show ?thesis by (auto simp: round_ties_even_def Let_def)
  qed
qed

lemma round_ties_even_minus: "round_ties_even (- r) = - round_ties_even r"
proof (cases "r = of_int \<lfloor>r\<rfloor>")
  case True
  then obtain n where "r = of_int n" ..
  then have "- r = of_int (- n)" by simp
  with \<open>r = of_int n\<close> show ?thesis by (simp only: round_ties_even_of_int)
next
  case False
  then have "\<lceil>r\<rceil> = \<lfloor>r\<rfloor> + 1" by (simp add: ceiling_altdef)
  then have fl: "\<lfloor>- r\<rfloor> = - \<lfloor>r\<rfloor> - 1" by (simp add: ceiling_def)
  show ?thesis
    unfolding round_ties_even_def Let_def fl by auto
qed

lemma pow2_add: "(2::real) powi (m + n) = 2 powi m * 2 powi n"
  by (rule power_int_add) simp

lemma exponent_from_bounds:
  "double_emin \<le> exponent_from n x \<and> exponent_from n x \<le> double_emin + int n"
  by (induction n) auto

lemma exponent_from_le:
  "exponent_from n x \<noteq> double_emin \<Longrightarrow> 2 powi (exponent_from n x) \<le> x"
  by (induction n) (auto split: if_splits)

lemma exponent_from_less:
  "exponent_from n x < k \<Longrightarrow> k \<le> double_emin + int n \<Longrightarrow> x < 2 powi k"
proof (induction n)
  case 0
  then show ?case by simp
next
  case (Suc n)
  show ?case
  proof (cases "2 powi (double_emin + int (Suc n)) \<le> x")
    case True
    with Suc.prems show ?thesis by simp
  next
    case False
    show ?thesis
    proof (cases "k = double_emin + int (Suc n)")
      case True
      with False show ?thesis by simp
    next
      case ne: False
      with Suc.prems(2) have "k \<le> double_emin + int n" by simp
      moreover from False Suc.prems(1) have "exponent_from n x < k" by simp
      ultimately show ?thesis by (rule Suc.IH [rotated])
    qed
  qed
qed

lemma double_exponent_minus [simp]: "double_exponent (- x) = double_exponent x"
  by (simp add: double_exponent_def)

lemma double_exponent_bounds: "double_emin \<le> double_exponent x" "double_exponent x \<le> double_emax"
  using exponent_from_bounds [of "nat (double_emax - double_emin)" "\<bar>x\<bar>"]
  by (simp_all add: double_exponent_def double_emin_def double_emax_def)

lemma double_exponent_le:
  "double_exponent x \<noteq> double_emin \<Longrightarrow> 2 powi (double_exponent x) \<le> \<bar>x\<bar>"
  unfolding double_exponent_def by (rule exponent_from_le)

lemma double_exponent_less:
  assumes "double_exponent x < k" "k \<le> double_emax"
  shows "\<bar>x\<bar> < 2 powi k"
proof -
  have "double_emin + int (nat (double_emax - double_emin)) = double_emax"
    by (simp add: double_emin_def double_emax_def)
  with assms(2) have "k \<le> double_emin + int (nat (double_emax - double_emin))" by (simp only:)
  with assms(1) show ?thesis
    unfolding double_exponent_def by (rule exponent_from_less)
qed

lemma to_double_ulp:
  "to_double x =
     (if x = 0 then Some 0
      else if 2 powi (double_emax + 1) \<le> \<bar>of_int (round_ties_even (x / double_ulp x)) * double_ulp x\<bar>
           then None
           else Some (of_int (round_ties_even (x / double_ulp x)) * double_ulp x))"
  by (simp add: to_double_def Let_def)

lemma double_ulp_pos: "0 < double_ulp x"
  by (simp add: double_ulp_def)

lemma double_ulp_minus [simp]: "double_ulp (- x) = double_ulp x"
  by (simp add: double_ulp_def)

lemma double_min_pos: "0 < double_min"
  unfolding double_min_def by (rule zero_less_power_int) simp

lemma double_ulp_grid: "\<exists>k::nat. double_ulp x = 2 ^ k * double_min"
proof -
  define e where "e = double_exponent x"
  have e: "double_emin \<le> e" unfolding e_def by (rule double_exponent_bounds)
  have "e - 52 = (e - double_emin) + (- 1074)" by (simp add: double_emin_def)
  then have "(2::real) powi (e - 52) = 2 powi ((e - double_emin) + (- 1074))"
    by (rule arg_cong)
  also have "\<dots> = 2 powi (e - double_emin) * 2 powi (- 1074)" by (rule pow2_add)
  also have "(2::real) powi (e - double_emin) = 2 ^ nat (e - double_emin)"
    using e by (simp add: power_int_nonneg_exp)
  finally show ?thesis unfolding double_ulp_def e_def double_min_def by blast
qed

lemma double_ulp_cases:
  "double_ulp x = double_min \<or> 2 ^ 52 * double_ulp x \<le> \<bar>x\<bar>"
proof (cases "double_exponent x = double_emin")
  case True
  then have "double_ulp x = 2 powi (- 1074)"
    by (simp add: double_ulp_def double_emin_def del: power_int_numeral_neg_numeral)
  then show ?thesis by (simp only: double_min_def) simp
next
  case False
  have "double_exponent x = 52 + (double_exponent x - 52)" by simp
  then have "(2::real) powi double_exponent x = 2 powi (52 + (double_exponent x - 52))"
    by (rule arg_cong)
  also have "\<dots> = 2 powi 52 * 2 powi (double_exponent x - 52)" by (rule pow2_add)
  also have "(2::real) powi 52 = 2 ^ 52" by (rule power_int_numeral)
  finally have "2 ^ 52 * double_ulp x = 2 powi double_exponent x" by (simp only: double_ulp_def)
  with double_exponent_le [OF False] show ?thesis by simp
qed

lemma double_ulp_subnormal:
  assumes "\<bar>x\<bar> < 2 * double_min"
  shows "double_ulp x = double_min"
proof -
  from double_ulp_cases [of x] show ?thesis
  proof
    assume big: "2 ^ 52 * double_ulp x \<le> \<bar>x\<bar>"
    obtain k :: nat where k: "double_ulp x = 2 ^ k * double_min" using double_ulp_grid by blast
    have "(1::real) \<le> 2 ^ k" by simp
    then have "1 * double_min \<le> 2 ^ k * double_min"
      using double_min_pos by (intro mult_right_mono) simp_all
    then have "double_min \<le> double_ulp x" by (simp add: k)
    then have "2 ^ 52 * double_min \<le> 2 ^ 52 * double_ulp x" by (intro mult_left_mono) simp_all
    moreover have "2 * double_min \<le> 2 ^ 52 * double_min"
      using double_min_pos by (intro mult_right_mono) simp_all
    ultimately have False using big assms by linarith
    then show ?thesis ..
  qed
qed

lemma double_tiny_half: "2 * double_tiny = double_min"
proof -
  have "(- 1074 :: int) = 1 + (- 1075)" by simp
  then have "(2::real) powi (- 1074) = 2 powi (1 + (- 1075))" by (rule arg_cong)
  also have "\<dots> = 2 powi 1 * 2 powi (- 1075)" by (rule pow2_add)
  finally show ?thesis by (simp only: double_min_def double_tiny_def power_int_1_right)
qed

lemma double_tiny_pos: "0 < double_tiny"
  unfolding double_tiny_def by (rule zero_less_power_int) simp

lemma to_double_minus: "to_double (- x) = map_option uminus (to_double x)"
  by (simp add: to_double_ulp round_ties_even_minus)

lemma to_double_nonneg:
  assumes "0 \<le> x" "to_double x = Some y"
  shows "0 \<le> y"
proof (cases "x = 0")
  case True
  with assms(2) show ?thesis by (simp add: to_double_ulp)
next
  case False
  have "0 \<le> x / double_ulp x" using assms(1) double_ulp_pos [of x] by simp
  then have "0 \<le> round_ties_even (x / double_ulp x)" by (rule round_ties_even_nonneg)
  then have "0 \<le> of_int (round_ties_even (x / double_ulp x)) * double_ulp x"
    using double_ulp_pos [of x] by simp
  with assms(2) False show ?thesis by (simp add: to_double_ulp split: if_splits)
qed

lemma to_double_zero_iff: "to_double x = Some 0 \<longleftrightarrow> \<bar>x\<bar> \<le> double_tiny"
proof (cases "x = 0")
  case True
  then show ?thesis using double_tiny_pos by (simp add: to_double_ulp)
next
  case False
  define u where "u = double_ulp x"
  have u: "0 < u" unfolding u_def by (rule double_ulp_pos)
  have threshold: "(0::real) < 2 powi (double_emax + 1)" by simp
  have zero: "to_double x = Some 0 \<longleftrightarrow> round_ties_even (x / u) = 0"
  proof (cases "round_ties_even (x / u) = 0")
    case True
    have "to_double x = Some (of_int (round_ties_even (x / u)) * u)"
      unfolding to_double_ulp u_def [symmetric] using False threshold
      by (simp only: True if_False of_int_0 mult_zero_left abs_zero not_le [symmetric] not_not)
    with True show ?thesis by simp
  next
    case nz: False
    then have "of_int (round_ties_even (x / u)) * u \<noteq> 0" using u by simp
    with nz False show ?thesis
      unfolding to_double_ulp u_def [symmetric] by (simp only: if_False split: if_split) simp
  qed
  also have "\<dots> \<longleftrightarrow> \<bar>x / u\<bar> \<le> 1 / 2" by (rule round_ties_even_zero_iff)
  also have "\<dots> \<longleftrightarrow> 2 * \<bar>x\<bar> \<le> u" using u by (simp add: field_simps)
  finally have step: "to_double x = Some 0 \<longleftrightarrow> 2 * \<bar>x\<bar> \<le> u" .
  show ?thesis
  proof
    assume "to_double x = Some 0"
    with step have le: "2 * \<bar>x\<bar> \<le> u" by simp
    have "\<not> 2 ^ 52 * u \<le> \<bar>x\<bar>"
    proof
      assume "2 ^ 52 * u \<le> \<bar>x\<bar>"
      with le have "2 * (2 ^ 52 * u) \<le> u" by linarith
      moreover have "1 * u < 2 * 2 ^ 52 * u" using u by (intro mult_strict_right_mono) simp_all
      ultimately show False by simp
    qed
    with double_ulp_cases [of x] have "u = double_min" by (simp add: u_def)
    with le show "\<bar>x\<bar> \<le> double_tiny" using double_tiny_half by simp
  next
    assume small: "\<bar>x\<bar> \<le> double_tiny"
    then have "\<bar>x\<bar> < 2 * double_min" using double_tiny_half double_tiny_pos by linarith
    then have "u = double_min" unfolding u_def by (rule double_ulp_subnormal)
    with small double_tiny_half have "2 * \<bar>x\<bar> \<le> u" by simp
    with step show "to_double x = Some 0" by simp
  qed
qed

lemma to_double_grid:
  assumes "to_double x = Some y"
  shows "\<exists>k::int. y = of_int k * double_min"
proof (cases "x = 0")
  case True
  with assms have "y = of_int 0 * double_min" by (simp add: to_double_ulp)
  then show ?thesis ..
next
  case False
  obtain k :: nat where k: "double_ulp x = 2 ^ k * double_min" using double_ulp_grid by blast
  from assms False have "y = of_int (round_ties_even (x / double_ulp x)) * double_ulp x"
    by (simp add: to_double_ulp split: if_splits)
  then have "y = of_int (round_ties_even (x / double_ulp x) * 2 ^ k) * double_min"
    by (simp add: k)
  then show ?thesis ..
qed

lemma grid_small_zero:
  assumes "y = of_int k * double_min" "\<bar>y\<bar> < double_min"
  shows "y = 0"
proof -
  have "\<bar>of_int k :: real\<bar> * double_min < 1 * double_min"
    using assms double_min_pos by (simp add: abs_mult)
  then have "\<bar>of_int k :: real\<bar> < 1" using double_min_pos by (simp only: mult_less_cancel_right) 
  then have "k = 0" by linarith
  with assms(1) show ?thesis by simp
qed

lemma is_double_grid: "is_double x \<Longrightarrow> \<exists>k::int. x = of_int k * double_min"
  unfolding is_double_def by (rule to_double_grid)

lemma is_double_0: "is_double 0"
  by (simp add: is_double_def to_double_ulp)

text \<open>The difference of two doubles rounds to zero only when they are equal.\<close>

lemma to_double_diff_zero_iff:
  assumes "is_double x1" "is_double x2"
  shows "to_double (x1 - x2) = Some 0 \<longleftrightarrow> x1 = x2"
proof
  assume "x1 = x2"
  then show "to_double (x1 - x2) = Some 0" by (simp add: to_double_ulp)
next
  assume "to_double (x1 - x2) = Some 0"
  then have "\<bar>x1 - x2\<bar> \<le> double_tiny" by (simp only: to_double_zero_iff)
  then have small: "\<bar>x1 - x2\<bar> < double_min" using double_tiny_half double_tiny_pos by linarith
  from assms obtain k1 k2 :: int where "x1 = of_int k1 * double_min" "x2 = of_int k2 * double_min"
    using is_double_grid by blast
  then have "x1 - x2 = of_int (k1 - k2) * double_min" by (simp add: algebra_simps)
  from grid_small_zero [OF this small] show "x1 = x2" by simp
qed

text \<open>A sum of two non-negative doubles rounds to zero only when both are zero.\<close>

lemma to_double_sum_zero_iff:
  assumes "0 \<le> s" "0 \<le> t" "\<exists>k::int. s = of_int k * double_min" "\<exists>k::int. t = of_int k * double_min"
  shows "to_double (s + t) = Some 0 \<longleftrightarrow> s = 0 \<and> t = 0"
proof
  assume "s = 0 \<and> t = 0"
  then show "to_double (s + t) = Some 0" by (simp add: to_double_ulp)
next
  assume "to_double (s + t) = Some 0"
  then have "\<bar>s + t\<bar> \<le> double_tiny" by (simp only: to_double_zero_iff)
  then have "\<bar>s\<bar> < double_min" "\<bar>t\<bar> < double_min"
    using assms(1,2) double_tiny_half double_tiny_pos by linarith+
  moreover from assms(3,4) obtain k1 k2 :: int where
    "s = of_int k1 * double_min" "t = of_int k2 * double_min" by blast
  ultimately show "s = 0 \<and> t = 0" using grid_small_zero by blast
qed

lemma is_double_minus: "is_double (- x) \<longleftrightarrow> is_double x"
  unfolding is_double_def to_double_minus by (cases "to_double x") auto

lemma is_double_pow2:
  assumes "- 1074 \<le> k" "k \<le> 1023"
  shows "is_double (2 powi k)"
proof -
  define x :: real where "x = 2 powi k"
  define e where "e = double_exponent x"
  have x: "0 < x" unfolding x_def by (rule zero_less_power_int) simp
  have "e - 52 \<le> k"
  proof (cases "e = double_emin")
    case True
    with assms(1) show ?thesis by (simp add: double_emin_def)
  next
    case False
    then have "2 powi e \<le> \<bar>x\<bar>" unfolding e_def by (rule double_exponent_le)
    then have le: "(2::real) powi e \<le> 2 powi k" using x by (simp add: x_def)
    have "e \<le> k"
    proof (rule ccontr)
      assume "\<not> e \<le> k"
      then have "k < e" by simp
      then have "(2::real) powi k < 2 powi e" by (intro power_int_strict_increasing) simp_all
      with le show False by simp
    qed
    then show ?thesis by simp
  qed
  then obtain n :: nat where n: "k = (e - 52) + int n"
    by (metis zle_iff_zadd)
  have u: "double_ulp x = 2 powi (e - 52)" by (simp only: double_ulp_def e_def)
  have "x = 2 powi (e - 52) * 2 powi (int n)" unfolding x_def n by (rule pow2_add)
  then have quot: "x = of_int (2 ^ n) * double_ulp x"
    unfolding u by (simp add: mult.commute)
  have "x / double_ulp x = of_int (2 ^ n)"
    using double_ulp_pos [of x] by (subst quot) simp
  then have r: "round_ties_even (x / double_ulp x) = 2 ^ n"
    by (simp only: round_ties_even_of_int)
  have "k < 1023 + 1" using assms(2) by simp
  then have "(2::real) powi k < 2 powi (1023 + 1)" by (intro power_int_strict_increasing) simp_all
  then have "\<not> 2 powi (double_emax + 1) \<le> \<bar>x\<bar>" using x by (simp add: x_def double_emax_def)
  moreover have "of_int (round_ties_even (x / double_ulp x)) * double_ulp x = x"
    using quot by (simp only: r)
  ultimately have "to_double x = Some x" using x by (simp only: to_double_ulp) simp
  then show ?thesis by (simp add: is_double_def x_def)
qed

lemma is_double_1: "is_double 1"
  using is_double_pow2 [of 0] by simp

lemma round_ties_even_ge: "of_int n \<le> r \<Longrightarrow> n \<le> round_ties_even r"
proof -
  assume "of_int n \<le> r"
  then have "n \<le> \<lfloor>r\<rfloor>" by (simp add: le_floor_iff)
  moreover have "\<lfloor>r\<rfloor> \<le> round_ties_even r" by (simp add: round_ties_even_def Let_def)
  ultimately show ?thesis by simp
qed

lemma to_double_overflow:
  assumes "2 powi (double_emax + 1) \<le> x"
  shows "to_double x = None"
proof -
  have pos: "0 < x"
  proof -
    have "(0::real) < 2 powi (double_emax + 1)" by (rule zero_less_power_int) simp
    with assms show ?thesis by linarith
  qed
  have e: "double_exponent x = double_emax"
  proof (rule ccontr)
    assume "double_exponent x \<noteq> double_emax"
    with double_exponent_bounds(2) [of x] have "double_exponent x < double_emax" by simp
    then have "\<bar>x\<bar> < 2 powi double_emax" by (rule double_exponent_less) simp
    moreover have "(2::real) powi double_emax \<le> 2 powi (double_emax + 1)"
      by (intro power_int_increasing) simp_all
    ultimately show False using assms pos by linarith
  qed
  define u where "u = double_ulp x"
  have u: "0 < u" unfolding u_def by (rule double_ulp_pos)
  have "double_emax + 1 = (double_emax - 52) + 53" by simp
  then have "(2::real) powi (double_emax + 1) = 2 powi ((double_emax - 52) + 53)" by (rule arg_cong)
  also have "\<dots> = 2 powi (double_emax - 52) * 2 powi 53" by (rule pow2_add)
  also have "\<dots> = u * of_int (2 ^ 53)" by (simp add: u_def double_ulp_def e)
  finally have big: "2 powi (double_emax + 1) = u * of_int (2 ^ 53)" .
  with assms have "of_int (2 ^ 53) * u \<le> x" by (simp add: mult.commute)
  then have "of_int (2 ^ 53) \<le> x / u" using u by (simp add: pos_le_divide_eq)
  then have "2 ^ 53 \<le> round_ties_even (x / u)" by (rule round_ties_even_ge)
  then have "(of_int (2 ^ 53) :: real) \<le> of_int (round_ties_even (x / u))" by (simp only: of_int_le_iff)
  then have "of_int (2 ^ 53) * u \<le> of_int (round_ties_even (x / u)) * u"
    using u by (intro mult_right_mono) simp_all
  then have "2 powi (double_emax + 1) \<le> \<bar>of_int (round_ties_even (x / u)) * u\<bar>"
    unfolding big by (simp add: mult.commute)
  then show ?thesis using pos by (simp only: to_double_ulp u_def) simp
qed


subsection \<open>Magnitudes\<close>

lemma magnitude_Finite:
  "magnitude (Finite s) \<longleftrightarrow> 0 \<le> s \<and> (\<exists>k::int. s = of_int k * double_min)"
proof -
  have "(\<exists>k::int. s = of_int k * double_min) \<longleftrightarrow> of_int \<lfloor>s / double_min\<rfloor> * double_min = s"
  proof
    assume "\<exists>k::int. s = of_int k * double_min"
    then obtain k :: int where "s = of_int k * double_min" ..
    then show "of_int \<lfloor>s / double_min\<rfloor> * double_min = s" using double_min_pos by simp
  next
    assume "of_int \<lfloor>s / double_min\<rfloor> * double_min = s"
    then have "s = of_int \<lfloor>s / double_min\<rfloor> * double_min" by simp
    then show "\<exists>k::int. s = of_int k * double_min" ..
  qed
  then show ?thesis by (simp add: magnitude_def)
qed

lemma magnitude_cases:
  assumes "magnitude v"
  obtains "v = PosInfinity"
  | s where "v = Finite s" "0 \<le> s" "\<exists>k::int. s = of_int k * double_min"
proof (cases v)
  case (Finite s)
  with assms show ?thesis using that(2) by (simp add: magnitude_Finite)
next
  case PosInfinity
  then show ?thesis by (rule that(1))
next
  case NegInfinity
  with assms show ?thesis by (simp add: magnitude_def)
next
  case NaN
  with assms show ?thesis by (simp add: magnitude_def)
qed

lemma magnitude_PosInfinity [simp]: "magnitude PosInfinity"
  by (simp add: magnitude_def)

lemma to_double_None_nonzero: "to_double x = None \<Longrightarrow> x \<noteq> 0"
  by (auto simp add: to_double_ulp)

lemma round_js_cases:
  obtains y where "to_double x = Some y" "round_js x = Finite y"
  | "to_double x = None" "0 < x" "round_js x = PosInfinity"
  | "to_double x = None" "x < 0" "round_js x = NegInfinity"
proof (cases "to_double x")
  case None
  then have "x \<noteq> 0" by (rule to_double_None_nonzero)
  then consider "0 < x" | "x < 0" by linarith
  then show ?thesis
  proof cases
    case 1
    with None show ?thesis using that(2) by (simp add: round_js_def)
  next
    case 2
    with None show ?thesis using that(3) by (simp add: round_js_def)
  qed
next
  case (Some y)
  then show ?thesis using that(1) by (simp add: round_js_def)
qed

lemma round_js_0 [simp]: "round_js 0 = Finite 0"
  by (simp add: round_js_def to_double_ulp)

lemma round_js_is_double: "is_double x \<Longrightarrow> round_js x = Finite x"
  by (simp add: round_js_def is_double_def)

lemma round_js_zero_iff: "round_js x = Finite 0 \<longleftrightarrow> \<bar>x\<bar> \<le> double_tiny"
  unfolding to_double_zero_iff [symmetric]
  by (cases x rule: round_js_cases) simp_all

lemma round_js_not_NaN [simp]: "round_js x \<noteq> NaN"
  by (cases x rule: round_js_cases) simp_all

lemma magnitude_round_js: "0 \<le> x \<Longrightarrow> magnitude (round_js x)"
proof (cases x rule: round_js_cases)
  case (1 y)
  assume "0 \<le> x"
  with 1(1) have "0 \<le> y" by (rule to_double_nonneg [rotated])
  moreover from 1(1) have "\<exists>k::int. y = of_int k * double_min" by (rule to_double_grid)
  ultimately show ?thesis by (simp add: 1(2) magnitude_Finite)
next
  case 2
  then show ?thesis by simp
next
  case 3
  assume "0 \<le> x"
  with 3 show ?thesis by simp
qed

lemma magnitude_abs_round_js: "magnitude (js_abs (round_js x))"
proof (cases x rule: round_js_cases)
  case (1 y)
  from 1(1) obtain k :: int where "y = of_int k * double_min" using to_double_grid by blast
  then have "\<bar>y\<bar> = of_int \<bar>k\<bar> * double_min" using double_min_pos by (simp add: abs_mult)
  then have "\<exists>k::int. \<bar>y\<bar> = of_int k * double_min" ..
  then show ?thesis by (simp add: 1(2) magnitude_Finite)
next
  case 2
  then show ?thesis by simp
next
  case 3
  then show ?thesis by simp
qed

lemma abs_round_js_minus: "js_abs (round_js (- x)) = js_abs (round_js x)"
proof (cases x rule: round_js_cases)
  case (1 y)
  then have "to_double (- x) = Some (- y)" by (simp add: to_double_minus)
  then have "round_js (- x) = Finite (- y)" by (simp add: round_js_def)
  with 1(2) show ?thesis by simp
next
  case 2
  then have "to_double (- x) = None" by (simp add: to_double_minus)
  with 2 show ?thesis by (simp add: round_js_def)
next
  case 3
  then have "to_double (- x) = None" by (simp add: to_double_minus)
  with 3 show ?thesis by (simp add: round_js_def)
qed

lemma abs_sub_commute: "js_abs (js_sub x y) = js_abs (js_sub y x)"
proof -
  have "js_abs (round_js (- (x - y))) = js_abs (round_js (x - y))" by (rule abs_round_js_minus)
  then show ?thesis by (simp add: js_sub_def)
qed

lemma magnitude_abs_sub: "magnitude (js_abs (js_sub x y))"
  unfolding js_sub_def by (rule magnitude_abs_round_js)

lemma abs_sub_zero_iff:
  assumes "is_double x" "is_double y"
  shows "js_abs (js_sub x y) = Finite 0 \<longleftrightarrow> x = y"
proof -
  have "js_abs (round_js (x - y)) = Finite 0 \<longleftrightarrow> to_double (x - y) = Some 0"
    by (cases "x - y" rule: round_js_cases) simp_all
  also have "\<dots> \<longleftrightarrow> x = y" using assms by (rule to_double_diff_zero_iff)
  finally show ?thesis by (simp only: js_sub_def)
qed

lemma magnitude_nonneg: "magnitude v \<Longrightarrow> js_le (Finite 0) v"
  by (erule magnitude_cases) simp_all

lemma magnitude_add:
  assumes "magnitude u" "magnitude v"
  shows "magnitude (js_add u v)"
  using assms(1)
proof (cases rule: magnitude_cases)
  case 1
  from assms(2) show ?thesis by (cases rule: magnitude_cases) (simp_all add: 1)
next
  case u: (2 s)
  from assms(2) show ?thesis
  proof (cases rule: magnitude_cases)
    case 1
    with u show ?thesis by simp
  next
    case (2 t)
    with u have "0 \<le> s + t" by simp
    then have "magnitude (round_js (s + t))" by (rule magnitude_round_js)
    with u 2 show ?thesis by simp
  qed
qed

lemma js_add_zero_iff:
  assumes "magnitude u" "magnitude v"
  shows "js_add u v = Finite 0 \<longleftrightarrow> u = Finite 0 \<and> v = Finite 0"
  using assms(1)
proof (cases rule: magnitude_cases)
  case 1
  from assms(2) show ?thesis by (cases rule: magnitude_cases) (simp_all add: 1)
next
  case u: (2 s)
  from assms(2) show ?thesis
  proof (cases rule: magnitude_cases)
    case 1
    with u show ?thesis by simp
  next
    case (2 t)
    have "round_js (s + t) = Finite 0 \<longleftrightarrow> to_double (s + t) = Some 0"
      by (cases "s + t" rule: round_js_cases) simp_all
    also have "\<dots> \<longleftrightarrow> s = 0 \<and> t = 0"
      using u(2) 2(2) u(3) 2(3) by (rule to_double_sum_zero_iff)
    finally show ?thesis by (simp add: u(1) 2(1))
  qed
qed

lemma js_mul_NaN_iff:
  assumes "magnitude u" "magnitude v"
  shows "js_mul u v = NaN \<longleftrightarrow>
    u = PosInfinity \<and> v = Finite 0 \<or> u = Finite 0 \<and> v = PosInfinity"
  using assms(1)
proof (cases rule: magnitude_cases)
  case 1
  from assms(2) show ?thesis by (cases rule: magnitude_cases) (auto simp add: 1 sgn_if)
next
  case u: (2 s)
  from assms(2) show ?thesis by (cases rule: magnitude_cases) (auto simp add: u sgn_if)
qed

lemma magnitude_mul:
  assumes "magnitude u" "magnitude v" "js_mul u v \<noteq> NaN"
  shows "magnitude (js_mul u v)"
  using assms(1)
proof (cases rule: magnitude_cases)
  case 1
  from assms(2) show ?thesis
  proof (cases rule: magnitude_cases)
    case 1
    with \<open>u = PosInfinity\<close> show ?thesis by simp
  next
    case (2 t)
    with assms(3) \<open>u = PosInfinity\<close> show ?thesis by (simp add: sgn_if split: if_splits)
  qed
next
  case u: (2 s)
  from assms(2) show ?thesis
  proof (cases rule: magnitude_cases)
    case 1
    with assms(3) u show ?thesis by (simp add: sgn_if split: if_splits)
  next
    case (2 t)
    with u have "0 \<le> s * t" by simp
    then have "magnitude (round_js (s * t))" by (rule magnitude_round_js)
    with u 2 show ?thesis by simp
  qed
qed

lemma js_square_not_NaN: "magnitude u \<Longrightarrow> js_mul u u \<noteq> NaN"
  by (simp add: js_mul_NaN_iff)

lemma magnitude_square: "magnitude u \<Longrightarrow> magnitude (js_mul u u)"
  by (rule magnitude_mul) (simp_all add: js_square_not_NaN)

lemma js_square_zero_iff:
  assumes "magnitude u"
  shows "js_mul u u = Finite 0 \<longleftrightarrow> (\<exists>s. u = Finite s \<and> s * s \<le> double_tiny)"
  using assms
proof (cases rule: magnitude_cases)
  case 1
  then show ?thesis by simp
next
  case (2 s)
  then have "0 \<le> s * s" by simp
  then show ?thesis by (simp add: 2(1) round_js_zero_iff)
qed

lemma js_max_zero_iff:
  assumes "magnitude u" "magnitude v"
  shows "(if js_le u v then v else u) = Finite 0 \<longleftrightarrow> u = Finite 0 \<and> v = Finite 0"
  using assms(1)
proof (cases rule: magnitude_cases)
  case 1
  from assms(2) show ?thesis by (cases rule: magnitude_cases) (simp_all add: 1)
next
  case u: (2 s)
  from assms(2) show ?thesis
  proof (cases rule: magnitude_cases)
    case 1
    with u show ?thesis by simp
  next
    case (2 t)
    with u show ?thesis by auto
  qed
qed

subsection \<open>Symmetry, sign and zeros of the metrics\<close>

lemma vector2_eq_iff:
  fixes a b :: vector2
  shows "a = b \<longleftrightarrow> vx a = vx b \<and> vy a = vy b"
  by (cases a, cases b) simp

lemma Manhattan_commute: "distanceToManhattan a b = distanceToManhattan b a"
  unfolding distanceToManhattan_def
  by (simp only: abs_sub_commute [of "vx a" "vx b"] abs_sub_commute [of "vy a" "vy b"])

lemma Chebyshev_commute: "distanceToChebyshev a b = distanceToChebyshev b a"
  unfolding distanceToChebyshev_def
  by (simp only: abs_sub_commute [of "vx a" "vx b"] abs_sub_commute [of "vy a" "vy b"])

lemma Quadratic_commute: "distanceToQuadratic a b = distanceToQuadratic b a"
  unfolding distanceToQuadratic_def
  by (simp only: abs_sub_commute [of "vx a" "vx b"] abs_sub_commute [of "vy a" "vy b"])

lemma Manhattan_nonneg: "js_le (Finite 0) (distanceToManhattan a b)"
  unfolding distanceToManhattan_def
  by (intro magnitude_nonneg magnitude_add magnitude_abs_sub)

lemma Chebyshev_nonneg: "js_le (Finite 0) (distanceToChebyshev a b)"
  unfolding distanceToChebyshev_def Let_def
  by (simp add: magnitude_nonneg magnitude_abs_sub)

lemma coincide_iff:
  fixes a b :: vector2
  assumes "is_double (vx a)" "is_double (vy a)" "is_double (vx b)" "is_double (vy b)"
  shows "js_abs (js_sub (vx a) (vx b)) = Finite 0 \<and> js_abs (js_sub (vy a) (vy b)) = Finite 0
    \<longleftrightarrow> a = b"
  using assms by (simp add: abs_sub_zero_iff vector2_eq_iff)

lemma Manhattan_zero_iff:
  assumes "is_double (vx a)" "is_double (vy a)" "is_double (vx b)" "is_double (vy b)"
  shows "distanceToManhattan a b = Finite 0 \<longleftrightarrow> a = b"
  unfolding distanceToManhattan_def coincide_iff [OF assms, symmetric]
  by (rule js_add_zero_iff) (rule magnitude_abs_sub)+

lemma Chebyshev_zero_iff:
  assumes "is_double (vx a)" "is_double (vy a)" "is_double (vx b)" "is_double (vy b)"
  shows "distanceToChebyshev a b = Finite 0 \<longleftrightarrow> a = b"
  unfolding distanceToChebyshev_def Let_def coincide_iff [OF assms, symmetric]
  by (rule js_max_zero_iff) (rule magnitude_abs_sub)+

lemma quadratic_form:
  assumes c: "magnitude c" and d: "magnitude d"
  defines "q \<equiv> js_add (js_add (js_mul c c) (js_mul c d)) (js_mul d d)"
  shows "q = NaN \<longleftrightarrow> c = PosInfinity \<and> d = Finite 0 \<or> c = Finite 0 \<and> d = PosInfinity"
    and "q = NaN \<or> js_le (Finite 0) q"
    and "q = Finite 0 \<longleftrightarrow>
      (\<exists>s t. c = Finite s \<and> d = Finite t \<and> s * s \<le> double_tiny \<and> t * t \<le> double_tiny)"
proof -
  have cc: "magnitude (js_mul c c)" and dd: "magnitude (js_mul d d)"
    using c d by (simp_all add: magnitude_square)
  have nan: "js_mul c d = NaN \<longleftrightarrow>
      c = PosInfinity \<and> d = Finite 0 \<or> c = Finite 0 \<and> d = PosInfinity"
    using c d by (rule js_mul_NaN_iff)
  show n: "q = NaN \<longleftrightarrow> c = PosInfinity \<and> d = Finite 0 \<or> c = Finite 0 \<and> d = PosInfinity"
  proof (cases "js_mul c d = NaN")
    case True
    have "js_add (js_mul c c) NaN = NaN" by (cases "js_mul c c") simp_all
    then have "q = NaN" by (simp add: q_def True)
    with True nan show ?thesis by simp
  next
    case False
    with c d have "magnitude (js_mul c d)" by (rule magnitude_mul)
    with cc dd have "magnitude q" unfolding q_def by (intro magnitude_add)
    then have "q \<noteq> NaN" by (auto simp add: magnitude_def)
    with False nan show ?thesis by simp
  qed
  show "q = NaN \<or> js_le (Finite 0) q"
  proof (cases "js_mul c d = NaN")
    case True
    with n nan show ?thesis by simp
  next
    case False
    with c d have "magnitude (js_mul c d)" by (rule magnitude_mul)
    with cc dd have "magnitude q" unfolding q_def by (intro magnitude_add)
    then show ?thesis by (simp add: magnitude_nonneg)
  qed
  show "q = Finite 0 \<longleftrightarrow>
      (\<exists>s t. c = Finite s \<and> d = Finite t \<and> s * s \<le> double_tiny \<and> t * t \<le> double_tiny)"
  proof (cases "js_mul c d = NaN")
    case True
    with n nan have "q = NaN" by simp
    moreover from True nan have "c = PosInfinity \<or> d = PosInfinity" by auto
    ultimately show ?thesis by auto
  next
    case False
    with c d have cd: "magnitude (js_mul c d)" by (rule magnitude_mul)
    with cc have "magnitude (js_add (js_mul c c) (js_mul c d))" by (rule magnitude_add)
    then have "q = Finite 0 \<longleftrightarrow>
        js_add (js_mul c c) (js_mul c d) = Finite 0 \<and> js_mul d d = Finite 0"
      unfolding q_def using dd by (rule js_add_zero_iff)
    also have "\<dots> \<longleftrightarrow>
        (js_mul c c = Finite 0 \<and> js_mul c d = Finite 0) \<and> js_mul d d = Finite 0"
      by (simp only: js_add_zero_iff [OF cc cd])
    also have "\<dots> \<longleftrightarrow>
        (\<exists>s t. c = Finite s \<and> d = Finite t \<and> s * s \<le> double_tiny \<and> t * t \<le> double_tiny)"
    proof
      assume "(js_mul c c = Finite 0 \<and> js_mul c d = Finite 0) \<and> js_mul d d = Finite 0"
      then show "\<exists>s t. c = Finite s \<and> d = Finite t \<and> s * s \<le> double_tiny \<and> t * t \<le> double_tiny"
        using c d by (auto simp add: js_square_zero_iff)
    next
      assume "\<exists>s t. c = Finite s \<and> d = Finite t \<and> s * s \<le> double_tiny \<and> t * t \<le> double_tiny"
      then obtain s t where st: "c = Finite s" "d = Finite t"
        "s * s \<le> double_tiny" "t * t \<le> double_tiny" by blast
      from c d st have pos: "0 \<le> s" "0 \<le> t" by (simp_all add: magnitude_Finite)
      have "s * t \<le> double_tiny"
      proof (cases "s \<le> t")
        case True
        then have "s * t \<le> t * t" using pos by (intro mult_right_mono)
        with st(4) show ?thesis by linarith
      next
        case False
        then have "s * t \<le> s * s" using pos by (intro mult_left_mono) simp_all
        with st(3) show ?thesis by linarith
      qed
      moreover have "0 \<le> s * t" "0 \<le> s * s" "0 \<le> t * t" using pos by simp_all
      ultimately show "(js_mul c c = Finite 0 \<and> js_mul c d = Finite 0) \<and> js_mul d d = Finite 0"
        using st by (simp add: round_js_zero_iff)
    qed
    finally show ?thesis .
  qed
qed

lemma js_abs_Finite_iff: "js_abs v = Finite s \<longleftrightarrow> (\<exists>x. v = Finite x \<and> s = \<bar>x\<bar>)"
  by (cases v) auto

lemma square_tiny: "(2::real) powi (- 540) * 2 powi (- 540) \<le> double_tiny"
proof -
  have "(2::real) powi (- 540 + - 540) \<le> 2 powi (- 1075)" by (intro power_int_increasing) simp_all
  then show ?thesis unfolding double_tiny_def by (simp only: pow2_add)
qed

lemma double_huge: "(2::real) powi 1023 - - (2 powi 1023) = 2 powi (double_emax + 1)"
proof -
  have "(2::real) powi (1023 + 1) = 2 powi 1023 * 2 powi 1" by (rule pow2_add)
  then show ?thesis by (simp add: double_emax_def)
qed


text \<open>
  C7 (amended). For two points whose coordinates are finite doubles, each of the three
  metrics returns the same value when the points are exchanged. \<open>distanceToManhattan\<close> and
  \<open>distanceToChebyshev\<close> are non-negative (possibly \<open>+\<infinity>\<close>) and are zero exactly when the two
  points are equal. \<open>distanceToQuadratic\<close> is zero when the two points are equal, but not
  only then: it is zero exactly when both coordinate differences, as rounded by the
  subtraction, have a square of at most \<open>2\<^sup>-\<^sup>1\<^sup>0\<^sup>7\<^sup>5\<close>, which the product rounds to zero. It is
  non-negative unless it is \<open>NaN\<close>, and it is \<open>NaN\<close> exactly when one coordinate difference
  overflows while the other coordinates are equal.
\<close>

theorem distance_metric_properties:
  assumes "is_double (vx a)" "is_double (vy a)" "is_double (vx b)" "is_double (vy b)"
  shows "distanceToManhattan a b = distanceToManhattan b a \<and>
         js_le (Finite 0) (distanceToManhattan a b) \<and>
         (distanceToManhattan a b = Finite 0 \<longleftrightarrow> a = b) \<and>
         distanceToChebyshev a b = distanceToChebyshev b a \<and>
         js_le (Finite 0) (distanceToChebyshev a b) \<and>
         (distanceToChebyshev a b = Finite 0 \<longleftrightarrow> a = b) \<and>
         distanceToQuadratic a b = distanceToQuadratic b a \<and>
         (distanceToQuadratic a b = NaN \<or> js_le (Finite 0) (distanceToQuadratic a b)) \<and>
         (distanceToQuadratic a b = NaN \<longleftrightarrow>
            js_abs (js_sub (vx a) (vx b)) = PosInfinity \<and> vy a = vy b \<or>
            vx a = vx b \<and> js_abs (js_sub (vy a) (vy b)) = PosInfinity) \<and>
         (a = b \<longrightarrow> distanceToQuadratic a b = Finite 0) \<and>
         (distanceToQuadratic a b = Finite 0 \<longleftrightarrow>
            (\<exists>dx dy. js_sub (vx a) (vx b) = Finite dx \<and> js_sub (vy a) (vy b) = Finite dy \<and>
               dx * dx \<le> 2 powi (- 1075) \<and> dy * dy \<le> 2 powi (- 1075)))"
proof -
  define c where "c = js_abs (js_sub (vx a) (vx b))"
  define d where "d = js_abs (js_sub (vy a) (vy b))"
  have c: "magnitude c" and d: "magnitude d"
    unfolding c_def d_def by (rule magnitude_abs_sub)+
  have q: "distanceToQuadratic a b = js_add (js_add (js_mul c c) (js_mul c d)) (js_mul d d)"
    by (simp only: distanceToQuadratic_def c_def d_def Let_def)
  have c0: "c = Finite 0 \<longleftrightarrow> vx a = vx b" unfolding c_def using assms(1,3) by (rule abs_sub_zero_iff)
  have d0: "d = Finite 0 \<longleftrightarrow> vy a = vy b" unfolding d_def using assms(2,4) by (rule abs_sub_zero_iff)
  have nan: "distanceToQuadratic a b = NaN \<longleftrightarrow>
      js_abs (js_sub (vx a) (vx b)) = PosInfinity \<and> vy a = vy b \<or>
      vx a = vx b \<and> js_abs (js_sub (vy a) (vy b)) = PosInfinity"
    unfolding q quadratic_form(1) [OF c d] c0 d0 by (simp only: c_def d_def)
  have nonneg: "distanceToQuadratic a b = NaN \<or> js_le (Finite 0) (distanceToQuadratic a b)"
    unfolding q by (rule quadratic_form(2) [OF c d])
  have "distanceToQuadratic a b = Finite 0 \<longleftrightarrow>
      (\<exists>s t. c = Finite s \<and> d = Finite t \<and> s * s \<le> double_tiny \<and> t * t \<le> double_tiny)"
    unfolding q by (rule quadratic_form(3) [OF c d])
  also have "\<dots> \<longleftrightarrow>
      (\<exists>dx dy. js_sub (vx a) (vx b) = Finite dx \<and> js_sub (vy a) (vy b) = Finite dy \<and>
         dx * dx \<le> double_tiny \<and> dy * dy \<le> double_tiny)"
    unfolding c_def d_def js_abs_Finite_iff by auto
  finally have zero: "distanceToQuadratic a b = Finite 0 \<longleftrightarrow>
      (\<exists>dx dy. js_sub (vx a) (vx b) = Finite dx \<and> js_sub (vy a) (vy b) = Finite dy \<and>
         dx * dx \<le> 2 powi (- 1075) \<and> dy * dy \<le> 2 powi (- 1075))"
    by (simp only: double_tiny_def)
  have same: "a = b \<longrightarrow> distanceToQuadratic a b = Finite 0"
  proof
    assume "a = b"
    then have "js_sub (vx a) (vx b) = Finite 0" "js_sub (vy a) (vy b) = Finite 0"
      by (simp_all add: js_sub_def)
    moreover have "(0::real) * 0 \<le> double_tiny" using double_tiny_pos by simp
    ultimately show "distanceToQuadratic a b = Finite 0"
      unfolding zero double_tiny_def by blast
  qed
  show ?thesis
    using Manhattan_commute [of a b] Manhattan_nonneg [of a b] Manhattan_zero_iff [OF assms]
      Chebyshev_commute [of a b] Chebyshev_nonneg [of a b] Chebyshev_zero_iff [OF assms]
      Quadratic_commute [of a b] nonneg nan same zero
    by (intro conjI)
qed

theorem distance_metric_properties_witness:
  "is_double 1 \<and> is_double 0 \<and>
   distanceToManhattan \<lparr>vx = 1, vy = 0\<rparr> \<lparr>vx = 0, vy = 0\<rparr> =
     distanceToManhattan \<lparr>vx = 0, vy = 0\<rparr> \<lparr>vx = 1, vy = 0\<rparr> \<and>
   js_le (Finite 0) (distanceToManhattan \<lparr>vx = 1, vy = 0\<rparr> \<lparr>vx = 0, vy = 0\<rparr>) \<and>
   distanceToManhattan \<lparr>vx = 1, vy = 0\<rparr> \<lparr>vx = 0, vy = 0\<rparr> \<noteq> Finite 0 \<and>
   distanceToChebyshev \<lparr>vx = 1, vy = 0\<rparr> \<lparr>vx = 0, vy = 0\<rparr> \<noteq> Finite 0 \<and>
   distanceToQuadratic \<lparr>vx = 1, vy = 0\<rparr> \<lparr>vx = 0, vy = 0\<rparr> =
     distanceToQuadratic \<lparr>vx = 0, vy = 0\<rparr> \<lparr>vx = 1, vy = 0\<rparr> \<and>
   distanceToQuadratic \<lparr>vx = 1, vy = 0\<rparr> \<lparr>vx = 1, vy = 0\<rparr> = Finite 0"
proof -
  define a where "a = \<lparr>vx = 1, vy = 0\<rparr>"
  define b where "b = \<lparr>vx = 0, vy = 0\<rparr>"
  have distinct: "a \<noteq> b" by (simp add: a_def b_def)
  have "is_double (vx a)" "is_double (vy a)" "is_double (vx b)" "is_double (vy b)"
    by (simp_all add: a_def b_def is_double_1 is_double_0)
  note doubles = this
  from distance_metric_properties [OF doubles(1,2,1,2)]
  have "distanceToQuadratic a a = Finite 0" by blast
  with distance_metric_properties [OF doubles] distinct is_double_1 is_double_0
  show ?thesis unfolding a_def [symmetric] b_def [symmetric] by blast
qed


text \<open>
  \<open>distanceToQuadratic\<close> is not zero only for equal points, and not always non-negative.
  The distinct points \<open>(2\<^sup>-\<^sup>5\<^sup>4\<^sup>0, 0)\<close> and \<open>(0, 0)\<close> are at distance 0: \<open>c * c = 2\<^sup>-\<^sup>1\<^sup>0\<^sup>8\<^sup>0\<close>
  underflows. The points \<open>(2\<^sup>1\<^sup>0\<^sup>2\<^sup>3, 0)\<close> and \<open>(-2\<^sup>1\<^sup>0\<^sup>2\<^sup>3, 0)\<close> are at distance \<open>NaN\<close>, for which
  \<open>0 <= NaN\<close> is false: \<open>c\<close> overflows to \<open>+\<infinity>\<close> and \<open>c * d\<close> is \<open>\<infinity> * 0\<close>.
\<close>

theorem distanceToQuadratic_counterexample:
  "is_double (2 powi (- 540)) \<and> is_double 0 \<and>
   \<lparr>vx = 2 powi (- 540), vy = 0\<rparr> \<noteq> \<lparr>vx = 0, vy = 0\<rparr> \<and>
   distanceToQuadratic \<lparr>vx = 2 powi (- 540), vy = 0\<rparr> \<lparr>vx = 0, vy = 0\<rparr> = Finite 0 \<and>
   is_double (2 powi 1023) \<and> is_double (- (2 powi 1023)) \<and>
   distanceToQuadratic \<lparr>vx = 2 powi 1023, vy = 0\<rparr> \<lparr>vx = - (2 powi 1023), vy = 0\<rparr> = NaN \<and>
   \<not> js_le (Finite 0) NaN"
proof -
  have small: "is_double (2 powi (- 540))" by (rule is_double_pow2) simp_all
  have big: "is_double (2 powi 1023)" by (rule is_double_pow2) simp_all
  then have neg: "is_double (- (2 powi 1023))" by (simp only: is_double_minus)
  have distinct: "\<lparr>vx = 2 powi (- 540), vy = 0\<rparr> \<noteq> \<lparr>vx = 0, vy = 0\<rparr>"
  proof -
    have "(0::real) < 2 powi (- 540)" by (rule zero_less_power_int) simp
    then show ?thesis by simp
  qed
  have c: "js_abs (js_sub (2 powi (- 540)) 0) = Finite (2 powi (- 540))"
  proof -
    have "(0::real) < 2 powi (- 540)" by (rule zero_less_power_int) simp
    then show ?thesis using round_js_is_double [OF small] by (simp add: js_sub_def)
  qed
  have cc: "round_js (2 powi (- 540) * 2 powi (- 540)) = Finite 0"
  proof -
    have "(0::real) \<le> 2 powi (- 540) * 2 powi (- 540)" by simp
    with square_tiny show ?thesis by (simp only: round_js_zero_iff abs_of_nonneg)
  qed
  have zero: "distanceToQuadratic \<lparr>vx = 2 powi (- 540), vy = 0\<rparr> \<lparr>vx = 0, vy = 0\<rparr> = Finite 0"
    unfolding distanceToQuadratic_def Let_def
    by (simp only: vector2.simps c js_mul.simps js_add.simps cc) (simp add: js_sub_def)
  have inf: "js_abs (js_sub (2 powi 1023) (- (2 powi 1023))) = PosInfinity"
  proof -
    have "to_double (2 powi (double_emax + 1)) = None" by (rule to_double_overflow) simp
    moreover have "(0::real) < 2 powi (double_emax + 1)" by (rule zero_less_power_int) simp
    ultimately have "round_js (2 powi (double_emax + 1)) = PosInfinity" by (simp add: round_js_def)
    then show ?thesis by (simp only: js_sub_def double_huge js_abs.simps)
  qed
  have nan: "distanceToQuadratic \<lparr>vx = 2 powi 1023, vy = 0\<rparr> \<lparr>vx = - (2 powi 1023), vy = 0\<rparr> = NaN"
    unfolding distanceToQuadratic_def Let_def
    by (simp only: vector2.simps inf) (simp add: js_sub_def)
  from small is_double_0 distinct zero big neg nan show ?thesis by simp
qed

section \<open>\<open>THREE.Terrain.MultiPass\<close>\<close>

text \<open>
  The fields of the options object that the generators read. A pass holds a generator,
  \<open>method(g, options)\<close> in the source and \<open>pass_method\<close> here, and an optional \<open>granularity\<close>. A generator mutates the vertex array
  and may mutate the shared options object; here it returns both, or fails.
\<close>

record options =
  xSegments :: nat
  ySegments :: nat
  maxHeight :: real
  minHeight :: real
  easing :: "real \<Rightarrow> real"

record pass =
  pass_method :: "vector3 list \<Rightarrow> options \<Rightarrow> failure + (vector3 list \<times> options)"
  granularity :: "real option"

text \<open>
  The loop \<open>for (var i = 0, l = passes.length; i < l; i++)\<close>, by recursion on the passes
  that remain; \<open>i\<close> is the index of the first of them.
\<close>

fun MultiPass_loop ::
  "nat \<Rightarrow> pass list \<Rightarrow> vector3 list \<Rightarrow> options \<Rightarrow> failure + (vector3 list \<times> options)" where
  "MultiPass_loop i [] g opts = Inr (g, opts)"
| "MultiPass_loop i (p # ps) g opts =
     (let GRANULARITY = 0.1;
          opts1 =
            (if i \<noteq> 0
             then let gran = (case granularity p of None \<Rightarrow> 1 | Some v \<Rightarrow> v);
                      move = (maxHeight opts - minHeight opts) * 0.5 * GRANULARITY * gran
                  in opts\<lparr>maxHeight := maxHeight opts - move, minHeight := minHeight opts + move\<rparr>
             else opts)
      in bind_js (pass_method p g opts1) (\<lambda>(g', opts'). MultiPass_loop (i + 1) ps g' opts'))"

definition MultiPass ::
  "vector3 list \<Rightarrow> options \<Rightarrow> pass list \<Rightarrow> failure + (vector3 list \<times> options)" where
  "MultiPass g opts passes =
     (let maxHeight0 = maxHeight opts; minHeight0 = minHeight opts
      in bind_js (MultiPass_loop 0 passes g opts)
           (\<lambda>(g', opts'). Inr (g', opts'\<lparr>maxHeight := maxHeight0, minHeight := minHeight0\<rparr>)))"

lemma bind_js_simps [simp]:
  "bind_js (Inl e) f = Inl e" "bind_js (Inr v) f = f v"
  by (simp_all add: bind_js_def)

lemma bind_js_Inr_iff:
  "bind_js m f = Inr r \<longleftrightarrow> (\<exists>v. m = Inr v \<and> f v = Inr r)"
  by (cases m) simp_all

text \<open>
  C6. When \<open>MultiPass\<close> returns, \<open>options.maxHeight\<close> and \<open>options.minHeight\<close> are the values
  they had before the call, whatever the passes did to them.
\<close>

theorem MultiPass_restores_band:
  "MultiPass g opts passes = Inr (g', opts') \<Longrightarrow>
   maxHeight opts' = maxHeight opts \<and> minHeight opts' = minHeight opts"
  by (auto simp: MultiPass_def Let_def bind_js_Inr_iff)

text \<open>
  A run with two passes: the second one stores the \<open>maxHeight\<close> it is given in every vertex,
  which shows the band narrowed to 90 while it runs and restored to 100 on return.
\<close>

definition keep_pass :: pass where
  "keep_pass = \<lparr>pass_method = (\<lambda>g opts. Inr (g, opts)), granularity = None\<rparr>"

definition record_pass :: pass where
  "record_pass =
     \<lparr>pass_method = (\<lambda>g opts. Inr (map (\<lambda>v. v\<lparr>pz := maxHeight opts\<rparr>) g, opts)), granularity = None\<rparr>"

definition band100 :: options where
  "band100 = \<lparr>xSegments = 1, ySegments = 1, maxHeight = 100, minHeight = - 100, easing = (\<lambda>x. x)\<rparr>"

theorem MultiPass_restores_band_witness:
  "MultiPass [\<lparr>px = 0, py = 0, pz = 0\<rparr>] band100 [keep_pass, record_pass] =
     Inr ([\<lparr>px = 0, py = 0, pz = 90\<rparr>], band100) \<and>
   maxHeight band100 = 100 \<and> minHeight band100 = - 100"
proof -
  have run: "MultiPass [\<lparr>px = 0, py = 0, pz = 0\<rparr>] band100 [keep_pass, record_pass] =
     Inr ([\<lparr>px = 0, py = 0, pz = 90\<rparr>], band100)"
    by (simp add: MultiPass_def keep_pass_def record_pass_def band100_def Let_def)
  from MultiPass_restores_band [OF run] run show ?thesis
    by (simp add: band100_def)
qed

section \<open>Counting loops\<close>

text \<open>
  A loop \<open>for (i = 0; i < n; i++) body\<close> runs its body on the indices \<open>[0..<n]\<close> in order,
  threading the state and stopping at the first failure. Two nested counting loops visit
  the pairs of \<open>List.product\<close> in the same order.
\<close>

fun for_each :: "'i list \<Rightarrow> ('i \<Rightarrow> 's \<Rightarrow> failure + 's) \<Rightarrow> 's \<Rightarrow> failure + 's" where
  "for_each [] body st = Inr st"
| "for_each (i # is) body st = bind_js (body i st) (for_each is body)"

lemma for_each_append:
  "for_each (xs @ ys) body st = bind_js (for_each xs body st) (for_each ys body)"
  by (induction xs arbitrary: st) (auto simp: bind_js_def split: sum.splits)

lemma for_each_product:
  "for_each xs (\<lambda>i. for_each ys (\<lambda>j. body i j)) st =
   for_each (List.product xs ys) (\<lambda>(i, j). body i j) st"
proof (induction xs arbitrary: st)
  case Nil
  then show ?case by simp
next
  case (Cons x xs)
  have inner: "for_each (map (Pair x) ys) (\<lambda>(i, j). body i j) s = for_each ys (body x) s" for s
    by (induction ys arbitrary: s) (auto simp: bind_js_def split: sum.splits)
  show ?case
    by (cases "for_each ys (body x) st") (simp_all add: for_each_append inner Cons.IH)
qed

lemma for_each_pointwise:
  assumes "distinct ps" "inj_on ix (set ps)" "\<forall>p\<in>set ps. ix p < length g"
    and body: "\<And>p g'. p \<in> set ps \<Longrightarrow> length g' = length g \<Longrightarrow>
                 body p g' = Inr (g'[ix p := F p (g' ! ix p)])"
  shows "\<exists>g'. for_each ps body g = Inr g' \<and> length g' = length g \<and>
           (\<forall>p\<in>set ps. g' ! ix p = F p (g ! ix p)) \<and>
           (\<forall>k. k \<notin> ix ` set ps \<longrightarrow> g' ! k = g ! k)"
  using assms
proof (induction ps arbitrary: g)
  case Nil
  then show ?case by simp
next
  case (Cons p ps)
  let ?g1 = "g[ix p := F p (g ! ix p)]"
  have step: "body p g = Inr ?g1" using Cons.prems(4) [of p g] by simp
  have "\<exists>g'. for_each ps body ?g1 = Inr g' \<and> length g' = length ?g1 \<and>
           (\<forall>q\<in>set ps. g' ! ix q = F q (?g1 ! ix q)) \<and>
           (\<forall>k. k \<notin> ix ` set ps \<longrightarrow> g' ! k = ?g1 ! k)"
  proof (rule Cons.IH)
    show "distinct ps" using Cons.prems(1) by simp
    show "inj_on ix (set ps)" using Cons.prems(2) by (simp add: inj_on_def)
    show "\<forall>q\<in>set ps. ix q < length ?g1" using Cons.prems(3) by simp
    show "body q g' = Inr (g'[ix q := F q (g' ! ix q)])"
      if "q \<in> set ps" "length g' = length ?g1" for q g'
      using that Cons.prems(4) [of q g'] by simp
  qed
  then obtain g' where g': "for_each ps body ?g1 = Inr g'" "length g' = length g"
    "\<forall>q\<in>set ps. g' ! ix q = F q (?g1 ! ix q)" "\<forall>k. k \<notin> ix ` set ps \<longrightarrow> g' ! k = ?g1 ! k"
    by auto
  have fresh: "ix q \<noteq> ix p" if "q \<in> set ps" for q
    using that Cons.prems(1,2) by (auto simp: inj_on_def)
  have "p \<notin> set ps" using Cons.prems(1) by simp
  have "ix p \<notin> ix ` set ps" using fresh by force
  then have at_p: "g' ! ix p = F p (g ! ix p)"
    using g'(4) Cons.prems(3) by simp
  have others: "g' ! ix q = F q (g ! ix q)" if "q \<in> set ps" for q
    using g'(3) that fresh [OF that] by simp
  have frame: "g' ! k = g ! k" if "k \<notin> ix ` set (p # ps)" for k
    using that g'(4) by simp
  show ?case
    using step g'(1,2) at_p others frame by (simp del: image_insert)
qed

lemma for_each_rule_aux:
  assumes step: "\<And>pre p post s. full = pre @ p # post \<Longrightarrow> P pre s \<Longrightarrow>
                   \<exists>s'. body p s = Inr s' \<and> P (pre @ [p]) s'"
  shows "full = pre @ ps \<Longrightarrow> P pre st \<Longrightarrow> \<exists>s'. for_each ps body st = Inr s' \<and> P full s'"
proof (induction ps arbitrary: pre st)
  case Nil
  then show ?case by simp
next
  case (Cons p ps)
  from step [of pre p ps st] Cons.prems obtain s1 where
    s1: "body p st = Inr s1" "P (pre @ [p]) s1" by auto
  from Cons.IH [of "pre @ [p]" s1] Cons.prems(1) s1(2) obtain s' where
    "for_each ps body s1 = Inr s'" "P full s'" by auto
  with s1(1) show ?case by simp
qed

lemma for_each_rule:
  assumes "P [] st"
    and "\<And>pre p post s. ps = pre @ p # post \<Longrightarrow> P pre s \<Longrightarrow>
           \<exists>s'. body p s = Inr s' \<and> P (pre @ [p]) s'"
  shows "\<exists>s'. for_each ps body st = Inr s' \<and> P ps s'"
  using for_each_rule_aux [of ps P body "[]" ps st] assms by simp

section \<open>\<open>THREE.Terrain.fromHeightmap\<close> and \<open>THREE.Terrain.toHeightmap\<close>\<close>

text \<open>
  The canvas belongs to the browser. \<open>fromHeightmap\<close> is modelled from the point where it
  holds \<open>data\<close>, the RGBA bytes that \<open>getImageData\<close> returned for the image drawn on a
  canvas of \<open>cols \<times> rows\<close> pixels; \<open>toHeightmap\<close> returns the bytes it hands to
  \<open>putImageData\<close>. Re-importing an exported heightmap passes these bytes on unchanged
  (the canvas has the size of the grid and every pixel is opaque).
  The vertex array \<open>g\<close> holds \<open>THREE.Vector3\<close> objects; \<open>g[i].z\<close> on a missing vertex throws.
\<close>

definition fromHeightmap_pixel :: "nat list \<Rightarrow> real \<Rightarrow> nat \<Rightarrow> vector3 list \<Rightarrow> failure + vector3 list" where
  "fromHeightmap_pixel data spread i g =
     (let idx = i * 4 in
      if length g \<le> i then Inl TypeError
      else if length data \<le> idx + 2 then Inl UndefinedRead
      else Inr (g[i := (g ! i)\<lparr>pz :=
             real (data ! idx + data ! (idx + 1) + data ! (idx + 2)) / 765 * spread\<rparr>]))"

definition fromHeightmap :: "vector3 list \<Rightarrow> options \<Rightarrow> nat list \<Rightarrow> failure + vector3 list" where
  "fromHeightmap g opts data =
     (let rows = ySegments opts + 1; cols = xSegments opts + 1;
          spread = maxHeight opts - minHeight opts
      in for_each [0..<rows] (\<lambda>row. for_each [0..<cols] (\<lambda>col.
           fromHeightmap_pixel data spread (row * cols + col))) g)"

text \<open>
  The image data is a \<open>Uint8ClampedArray\<close>: a stored integer is clamped to \<open>0..255\<close>, and a
  store beyond its length is ignored. With \<open>spread = 0\<close> the quotient is an infinity or
  \<open>NaN\<close>, which are stored as 255 (for \<open>+\<infinity>\<close>) and 0.
\<close>

definition to_uint8_clamped :: "int \<Rightarrow> nat" where
  "to_uint8_clamped v = nat (max 0 (min 255 v))"

definition toHeightmap_value :: "real \<Rightarrow> real \<Rightarrow> real \<Rightarrow> nat" where
  "toHeightmap_value z minH spread =
     (if spread = 0 then (if 0 < z - minH then 255 else 0)
      else to_uint8_clamped (round ((z - minH) / spread * 255)))"

definition toHeightmap_pixel :: "vector3 list \<Rightarrow> real \<Rightarrow> real \<Rightarrow> nat \<Rightarrow> nat list \<Rightarrow> failure + nat list" where
  "toHeightmap_pixel g minH spread i data =
     (let idx = i * 4 in
      if length g \<le> i then Inl TypeError
      else let v = toHeightmap_value (pz (g ! i)) minH spread
           in Inr (data[idx + 2 := v, idx + 1 := v, idx := v, idx + 3 := 255]))"

definition toHeightmap :: "vector3 list \<Rightarrow> options \<Rightarrow> failure + nat list" where
  "toHeightmap g opts =
     (let rows = ySegments opts + 1; cols = xSegments opts + 1;
          spread = maxHeight opts - minHeight opts
      in for_each [0..<rows] (\<lambda>row. for_each [0..<cols] (\<lambda>col.
           toHeightmap_pixel g (minHeight opts) spread (row * cols + col)))
           (replicate (cols * rows * 4) 0))"

definition vertex_count :: "options \<Rightarrow> nat" where
  "vertex_count opts = (xSegments opts + 1) * (ySegments opts + 1)"

lemma row_major_inj: "inj_on (\<lambda>(row, col). row * cols + col) (set (List.product [0..<rows] [0..<cols]))"
proof (rule inj_onI, clarsimp)
  fix r c r' c' :: nat
  assume "c < cols" "c' < cols" and eq: "r * cols + c = r' * cols + c'"
  then have "(r * cols + c) div cols = (r' * cols + c') div cols"
    "(r * cols + c) mod cols = (r' * cols + c') mod cols" by simp_all
  with \<open>c < cols\<close> \<open>c' < cols\<close> show "r = r' \<and> c = c'" by simp
qed

lemma row_major_image:
  "(\<lambda>(row, col). row * cols + col) ` set (List.product [0..<rows] [0..<cols]) = {..<rows * cols}"
proof (intro equalityI subsetI)
  fix k assume "k \<in> (\<lambda>(row, col). row * cols + col) ` set (List.product [0..<rows] [0..<cols])"
  then obtain r c where rc: "k = r * cols + c" "r < rows" "c < cols" by auto
  then have "r * cols + c < Suc r * cols" by simp
  also have "\<dots> \<le> rows * cols" using rc(2) by (intro mult_le_mono1) simp
  finally show "k \<in> {..<rows * cols}" using rc(1) by simp
next
  fix k assume "k \<in> {..<rows * cols}"
  then have k: "k < rows * cols" by simp
  then have "0 < cols" by (cases cols) auto
  have "k div cols < rows" using k by (simp add: less_mult_imp_div_less)
  moreover have "k mod cols < cols" using \<open>0 < cols\<close> by simp
  moreover have "k = (k div cols) * cols + k mod cols" by simp
  ultimately show "k \<in> (\<lambda>(row, col). row * cols + col) ` set (List.product [0..<rows] [0..<cols])"
    by (intro image_eqI [where x = "(k div cols, k mod cols)"]) auto
qed

lemma fromHeightmap_formula:
  assumes g: "vertex_count opts \<le> length g" and data: "4 * vertex_count opts \<le> length data"
  shows "\<exists>g'. fromHeightmap g opts data = Inr g' \<and> length g' = length g \<and>
           (\<forall>i < vertex_count opts.
              pz (g' ! i) = real (data ! (4 * i) + data ! (4 * i + 1) + data ! (4 * i + 2)) / 765
                              * (maxHeight opts - minHeight opts))"
proof -
  define rows cols spread where "rows = ySegments opts + 1" and "cols = xSegments opts + 1"
    and "spread = maxHeight opts - minHeight opts"
  define ps where "ps = List.product [0..<rows] [0..<cols]"
  define ix where "ix = (\<lambda>(row :: nat, col :: nat). row * cols + col)"
  define F where "F = (\<lambda>p (v :: vector3). v\<lparr>pz := real (data ! (ix p * 4) + data ! (ix p * 4 + 1)
                + data ! (ix p * 4 + 2)) / 765 * spread\<rparr>)"
  define body where "body = (\<lambda>(row, col). fromHeightmap_pixel data spread (row * cols + col))"
  have n: "vertex_count opts = rows * cols" by (simp add: vertex_count_def rows_def cols_def)
  have image: "ix ` set ps = {..<rows * cols}"
    unfolding ix_def ps_def by (rule row_major_image)
  have bound: "ix p < rows * cols" if "p \<in> set ps" for p
    using image that by blast
  have run: "fromHeightmap g opts data = for_each ps body g"
    unfolding fromHeightmap_def Let_def ps_def body_def rows_def cols_def spread_def
    by (rule for_each_product)
  have "\<exists>g'. for_each ps body g = Inr g'
          \<and> length g' = length g \<and> (\<forall>p\<in>set ps. g' ! ix p = F p (g ! ix p)) \<and>
          (\<forall>k. k \<notin> ix ` set ps \<longrightarrow> g' ! k = g ! k)"
  proof (rule for_each_pointwise)
    show "distinct ps" by (simp add: ps_def distinct_product)
    show "inj_on ix (set ps)" unfolding ix_def ps_def by (rule row_major_inj)
    show "\<forall>p\<in>set ps. ix p < length g"
    proof
      fix p assume "p \<in> set ps"
      from bound [OF this] g n show "ix p < length g" by simp
    qed
    show "body p g' = Inr (g'[ix p := F p (g' ! ix p)])"
      if "p \<in> set ps" "length g' = length g" for p g'
    proof -
      obtain row col where p: "p = (row, col)" by (cases p)
      have "ix p < rows * cols" using bound that(1) .
      then have "ix p < length g'" "ix p * 4 + 2 < length data"
        using g data n that(2) by linarith+
      then have "row * cols + col < length g'" "(row * cols + col) * 4 + 2 < length data"
        by (simp_all add: p ix_def)
      then show ?thesis
        by (simp add: p body_def F_def ix_def fromHeightmap_pixel_def Let_def)
    qed
  qed
  then obtain g' where g': "for_each ps body g = Inr g'" "length g' = length g"
    "\<forall>p\<in>set ps. g' ! ix p = F p (g ! ix p)"
    by blast
  have "pz (g' ! i) = real (data ! (4 * i) + data ! (4 * i + 1) + data ! (4 * i + 2)) / 765 * spread"
    if "i < vertex_count opts" for i
  proof -
    from that n have "i \<in> ix ` set ps" unfolding image by simp
    then obtain p where p: "p \<in> set ps" "ix p = i" by (elim imageE) simp
    from g'(3) p(1) have "g' ! ix p = F p (g ! ix p)" by (rule bspec)
    then have "g' ! i = F p (g ! i)" unfolding p(2) .
    then show ?thesis by (simp add: F_def p(2) mult.commute)
  qed
  then have "\<forall>i < vertex_count opts. pz (g' ! i) =
      real (data ! (4 * i) + data ! (4 * i + 1) + data ! (4 * i + 2)) / 765 * (maxHeight opts - minHeight opts)"
    unfolding spread_def by simp
  with g'(1,2) run show ?thesis by simp
qed

lemma pixel_update_other:
  "j \<noteq> i \<Longrightarrow> c < 4 \<Longrightarrow>
   data[i * 4 + 2 := v, i * 4 + 1 := v, i * 4 := v, i * 4 + 3 := w] ! (j * 4 + c) = data ! (j * 4 + c)"
proof -
  assume "j \<noteq> i" "c < (4::nat)"
  then have "i * 4 + 2 \<noteq> j * 4 + c" "i * 4 + 1 \<noteq> j * 4 + c" "i * 4 \<noteq> j * 4 + c"
    "i * 4 + 3 \<noteq> j * 4 + c" by arith+
  then show ?thesis by simp
qed

lemma pixel_update_same:
  assumes "i * 4 + 3 < length data"
  shows "data[i * 4 + 2 := v, i * 4 + 1 := v, i * 4 := v, i * 4 + 3 := w] ! (i * 4) = v"
    "data[i * 4 + 2 := v, i * 4 + 1 := v, i * 4 := v, i * 4 + 3 := w] ! (i * 4 + 1) = v"
    "data[i * 4 + 2 := v, i * 4 + 1 := v, i * 4 := v, i * 4 + 3 := w] ! (i * 4 + 2) = v"
    "data[i * 4 + 2 := v, i * 4 + 1 := v, i * 4 := v, i * 4 + 3 := w] ! (i * 4 + 3) = w"
  using assms by (simp_all add: nth_list_update)

lemma toHeightmap_formula:
  assumes g: "vertex_count opts \<le> length g"
  shows "\<exists>data. toHeightmap g opts = Inr data \<and> length data = 4 * vertex_count opts \<and>
           (\<forall>i < vertex_count opts.
              data ! (4 * i) = toHeightmap_value (pz (g ! i)) (minHeight opts) (maxHeight opts - minHeight opts) \<and>
              data ! (4 * i + 1) = data ! (4 * i) \<and>
              data ! (4 * i + 2) = data ! (4 * i) \<and>
              data ! (4 * i + 3) = 255)"
proof -
  define rows cols spread where "rows = ySegments opts + 1" and "cols = xSegments opts + 1"
    and "spread = maxHeight opts - minHeight opts"
  define ps where "ps = List.product [0..<rows] [0..<cols]"
  define ix where "ix = (\<lambda>(row :: nat, col :: nat). row * cols + col)"
  define val where "val = (\<lambda>i. toHeightmap_value (pz (g ! i)) (minHeight opts) spread)"
  define body where "body = (\<lambda>(row, col). toHeightmap_pixel g (minHeight opts) spread (row * cols + col))"
  define pixel_ok where "pixel_ok = (\<lambda>i (data :: nat list). data ! (i * 4) = val i \<and> data ! (i * 4 + 1) = val i \<and>
     data ! (i * 4 + 2) = val i \<and> data ! (i * 4 + 3) = 255)"
  define P where "P = (\<lambda>pre (data :: nat list). length data = rows * cols * 4 \<and> (\<forall>q\<in>set pre. pixel_ok (ix q) data))"
  have n: "vertex_count opts = rows * cols" by (simp add: vertex_count_def rows_def cols_def)
  have image: "ix ` set ps = {..<rows * cols}"
    unfolding ix_def ps_def by (rule row_major_image)
  have inj: "inj_on ix (set ps)" unfolding ix_def ps_def by (rule row_major_inj)
  have dist: "distinct ps" by (simp add: ps_def distinct_product)
  have bound: "ix p < rows * cols" if "p \<in> set ps" for p
    using image that by blast
  have run: "toHeightmap g opts = for_each ps body (replicate (cols * rows * 4) 0)"
    unfolding toHeightmap_def Let_def ps_def body_def rows_def cols_def spread_def
    by (rule for_each_product)
  have "\<exists>data. for_each ps body (replicate (cols * rows * 4) 0) = Inr data \<and> P ps data"
  proof (rule for_each_rule)
    show "P [] (replicate (cols * rows * 4) 0)" by (simp add: P_def mult.commute)
    show "\<exists>s'. body p s = Inr s' \<and> P (pre @ [p]) s'"
      if split: "ps = pre @ p # post" and inv: "P pre s" for pre p post s
    proof -
      obtain row col where p: "p = (row, col)" by (cases p)
      define i where "i = ix p"
      have "p \<in> set ps" using split by simp
      then have i: "i < rows * cols" unfolding i_def by (rule bound)
      have len: "length s = rows * cols * 4" using inv by (simp add: P_def)
      let ?s' = "s[i * 4 + 2 := val i, i * 4 + 1 := val i, i * 4 := val i, i * 4 + 3 := 255]"
      have "i < length g" using i g n by simp
      then have step: "body p s = Inr ?s'"
        by (simp add: p body_def i_def ix_def toHeightmap_pixel_def Let_def val_def)
      have in_range: "i * 4 + 3 < length s" using i len by simp
      have new: "pixel_ok i ?s'"
        unfolding pixel_ok_def using pixel_update_same [OF in_range] by simp
      have old: "pixel_ok (ix q) ?s'" if q: "q \<in> set pre" for q
      proof -
        have "q \<in> set ps" "q \<noteq> p" using q split dist by auto
        with inj \<open>p \<in> set ps\<close> have "ix q \<noteq> i" unfolding i_def by (auto simp: inj_on_def)
        moreover have "pixel_ok (ix q) s" using inv q by (simp add: P_def)
        ultimately show ?thesis
          unfolding pixel_ok_def
          using pixel_update_other [of "ix q" i 0] pixel_update_other [of "ix q" i 1]
            pixel_update_other [of "ix q" i 2] pixel_update_other [of "ix q" i 3]
          by simp
      qed
      have "P (pre @ [p]) ?s'"
        unfolding P_def using len new old by (simp add: i_def)
      with step show ?thesis by blast
    qed
  qed
  then obtain data where data: "for_each ps body (replicate (cols * rows * 4) 0) = Inr data"
    "P ps data" by blast
  have "pixel_ok i data" if "i < vertex_count opts" for i
  proof -
    from that n have "i \<in> ix ` set ps" unfolding image by simp
    then obtain p where p: "p \<in> set ps" "ix p = i" by (elim imageE) simp
    from data(2) p(1) have "pixel_ok (ix p) data" unfolding P_def by simp
    then show ?thesis unfolding p(2) .
  qed
  then have "\<forall>i < vertex_count opts.
      data ! (4 * i) = toHeightmap_value (pz (g ! i)) (minHeight opts) (maxHeight opts - minHeight opts) \<and>
      data ! (4 * i + 1) = data ! (4 * i) \<and> data ! (4 * i + 2) = data ! (4 * i) \<and>
      data ! (4 * i + 3) = 255"
    unfolding pixel_ok_def val_def spread_def by (simp add: mult.commute)
  moreover have "length data = 4 * vertex_count opts"
    using data(2) n by (simp add: P_def)
  ultimately show ?thesis using run data(1) by simp
qed

lemma toHeightmap_value_in_band:
  assumes "minH < maxH" "minH \<le> z" "z \<le> maxH"
  shows "toHeightmap_value z minH (maxH - minH) = nat (round ((z - minH) / (maxH - minH) * 255))"
    and "\<bar>real (toHeightmap_value z minH (maxH - minH)) / 255 * (maxH - minH) - (z - minH)\<bar>
          \<le> (maxH - minH) / 510"
proof -
  define spread t where "spread = maxH - minH" and "t = (z - minH) / spread * 255"
  have spread: "0 < spread" using assms(1) by (simp add: spread_def)
  have "0 \<le> (z - minH) / spread" "(z - minH) / spread \<le> 1"
    using assms spread by (simp_all add: spread_def)
  then have "0 * 255 \<le> (z - minH) / spread * 255" "(z - minH) / spread * 255 \<le> 1 * 255"
    by (intro mult_right_mono; simp)+
  then have t: "0 \<le> t" "t \<le> 255" unfolding t_def by linarith+
  have r: "0 \<le> round t" "round t \<le> 255"
    using round_mono [OF t(1)] round_mono [OF t(2)] by simp_all
  then have val_eq: "toHeightmap_value z minH spread = nat (round t)"
    using spread by (simp add: toHeightmap_value_def to_uint8_clamped_def t_def)
  from val_eq show "toHeightmap_value z minH (maxH - minH) = nat (round ((z - minH) / (maxH - minH) * 255))"
    by (simp add: spread_def t_def)
  have "real (nat (round t)) = of_int (round t)" using r by simp
  moreover have "\<bar>of_int (round t) - t\<bar> \<le> 1 / 2" by (rule of_int_round_abs_le)
  ultimately have close: "\<bar>real (toHeightmap_value z minH spread) - t\<bar> \<le> 1 / 2"
    using val_eq by simp
  have "z - minH = t / 255 * spread" using spread by (simp add: t_def)
  then have "real (toHeightmap_value z minH spread) / 255 * spread - (z - minH) =
      (real (toHeightmap_value z minH spread) - t) * (spread / 255)"
    by (simp add: field_simps)
  then have "\<bar>real (toHeightmap_value z minH spread) / 255 * spread - (z - minH)\<bar> =
      \<bar>(real (toHeightmap_value z minH spread) - t) * (spread / 255)\<bar>"
    by (rule arg_cong)
  also have "\<dots> = \<bar>real (toHeightmap_value z minH spread) - t\<bar> * (spread / 255)"
    using spread by (simp add: abs_mult)
  also have "\<dots> \<le> 1 / 2 * (spread / 255)"
    using close spread by (intro mult_right_mono) simp_all
  finally show "\<bar>real (toHeightmap_value z minH (maxH - minH)) / 255 * (maxH - minH) - (z - minH)\<bar>
          \<le> (maxH - minH) / 510"
    by (simp add: spread_def)
qed

definition flat4 :: "vector3 list" where
  "flat4 = replicate 4 \<lparr>px = 0, py = 0, pz = 0\<rparr>"

text \<open>
  What the two functions compute. \<open>fromHeightmap\<close> sets the elevation of vertex \<open>i\<close> to
  \<open>(R+G+B)/765 * (maxHeight-minHeight)\<close> of pixel \<open>i\<close> (row-major), and \<open>toHeightmap\<close> writes
  \<open>round((z-minHeight)/(maxHeight-minHeight)*255)\<close> to the three colour channels and 255 to
  alpha. For \<open>minHeight < maxHeight\<close> and elevations inside the band, exporting and
  re-importing gives \<open>z - minHeight\<close> up to half a grey level,
  \<open>(maxHeight-minHeight)/510\<close>, and not \<open>z\<close>.
\<close>

theorem heightmap_export_import:
  assumes band: "minHeight opts < maxHeight opts"
    and g: "vertex_count opts \<le> length g"
    and inside: "\<forall>i < vertex_count opts. minHeight opts \<le> pz (g ! i) \<and> pz (g ! i) \<le> maxHeight opts"
  shows "(\<forall>pixels. 4 * vertex_count opts \<le> length pixels \<longrightarrow>
           (\<exists>g'. fromHeightmap g opts pixels = Inr g' \<and>
              (\<forall>i < vertex_count opts.
                 pz (g' ! i) = real (pixels ! (4 * i) + pixels ! (4 * i + 1) + pixels ! (4 * i + 2)) / 765
                                 * (maxHeight opts - minHeight opts)))) \<and>
         (\<exists>data g'. toHeightmap g opts = Inr data \<and> fromHeightmap g opts data = Inr g' \<and>
            (\<forall>i < vertex_count opts.
               data ! (4 * i) = nat (round ((pz (g ! i) - minHeight opts)
                                       / (maxHeight opts - minHeight opts) * 255)) \<and>
               data ! (4 * i + 1) = data ! (4 * i) \<and>
               data ! (4 * i + 2) = data ! (4 * i) \<and>
               data ! (4 * i + 3) = 255 \<and>
               \<bar>pz (g' ! i) - (pz (g ! i) - minHeight opts)\<bar>
                 \<le> (maxHeight opts - minHeight opts) / 510))"
proof (intro conjI allI impI)
  fix pixels :: "nat list"
  assume "4 * vertex_count opts \<le> length pixels"
  from fromHeightmap_formula [OF g this]
  show "\<exists>g'. fromHeightmap g opts pixels = Inr g' \<and>
              (\<forall>i < vertex_count opts.
                 pz (g' ! i) = real (pixels ! (4 * i) + pixels ! (4 * i + 1) + pixels ! (4 * i + 2)) / 765
                                 * (maxHeight opts - minHeight opts))"
    by blast
next
  define spread where "spread = maxHeight opts - minHeight opts"
  from toHeightmap_formula [OF g] obtain data where
    data: "toHeightmap g opts = Inr data" "length data = 4 * vertex_count opts"
    and pixel: "\<And>i. i < vertex_count opts \<Longrightarrow>
      data ! (4 * i) = toHeightmap_value (pz (g ! i)) (minHeight opts) (maxHeight opts - minHeight opts) \<and>
      data ! (4 * i + 1) = data ! (4 * i) \<and> data ! (4 * i + 2) = data ! (4 * i) \<and>
      data ! (4 * i + 3) = 255"
    by blast
  from data(2) have "4 * vertex_count opts \<le> length data" by simp
  from fromHeightmap_formula [OF g this] obtain g' where
    g': "fromHeightmap g opts data = Inr g'"
    and z: "\<And>i. i < vertex_count opts \<Longrightarrow>
      pz (g' ! i) = real (data ! (4 * i) + data ! (4 * i + 1) + data ! (4 * i + 2)) / 765
                      * (maxHeight opts - minHeight opts)"
    by blast
  have "data ! (4 * i) = nat (round ((pz (g ! i) - minHeight opts)
                                       / (maxHeight opts - minHeight opts) * 255)) \<and>
        data ! (4 * i + 1) = data ! (4 * i) \<and>
        data ! (4 * i + 2) = data ! (4 * i) \<and>
        data ! (4 * i + 3) = 255 \<and>
        \<bar>pz (g' ! i) - (pz (g ! i) - minHeight opts)\<bar> \<le> (maxHeight opts - minHeight opts) / 510"
    if i: "i < vertex_count opts" for i
  proof -
    define v where "v = toHeightmap_value (pz (g ! i)) (minHeight opts) (maxHeight opts - minHeight opts)"
    from inside i have zi: "minHeight opts \<le> pz (g ! i)" "pz (g ! i) \<le> maxHeight opts" by simp_all
    note quant = toHeightmap_value_in_band [OF band zi]
    from pixel [OF i] have px: "data ! (4 * i) = v" "data ! (4 * i + 1) = v" "data ! (4 * i + 2) = v"
      "data ! (4 * i + 3) = 255" by (simp_all add: v_def)
    have "pz (g' ! i) = real (v + v + v) / 765 * (maxHeight opts - minHeight opts)"
      using z [OF i] px by simp
    then have zq: "pz (g' ! i) = real v / 255 * (maxHeight opts - minHeight opts)" by simp
    have "\<bar>pz (g' ! i) - (pz (g ! i) - minHeight opts)\<bar>
        \<le> (maxHeight opts - minHeight opts) / 510"
      unfolding zq v_def by (rule quant(2))
    with px quant(1) show ?thesis by (simp add: v_def)
  qed
  with data(1) g' show "\<exists>data g'. toHeightmap g opts = Inr data \<and> fromHeightmap g opts data = Inr g' \<and>
            (\<forall>i < vertex_count opts.
               data ! (4 * i) = nat (round ((pz (g ! i) - minHeight opts)
                                       / (maxHeight opts - minHeight opts) * 255)) \<and>
               data ! (4 * i + 1) = data ! (4 * i) \<and>
               data ! (4 * i + 2) = data ! (4 * i) \<and>
               data ! (4 * i + 3) = 255 \<and>
               \<bar>pz (g' ! i) - (pz (g ! i) - minHeight opts)\<bar>
                 \<le> (maxHeight opts - minHeight opts) / 510)"
    by blast
qed

lemma upt_2: "[0..<Suc (Suc 0)] = [0, 1]" "[0..<2] = [0, 1]"
  by (simp_all add: upt_rec numeral_2_eq_2)

lemma toHeightmap_flat4:
  "toHeightmap flat4 band100 =
     Inr [128, 128, 128, 255, 128, 128, 128, 255, 128, 128, 128, 255, 128, 128, 128, 255]"
  by (simp add: toHeightmap_def toHeightmap_pixel_def toHeightmap_value_def to_uint8_clamped_def
      flat4_def band100_def Let_def upt_2 round_def numeral_eq_Suc)

lemma fromHeightmap_flat4:
  "fromHeightmap flat4 band100
     [128, 128, 128, 255, 128, 128, 128, 255, 128, 128, 128, 255, 128, 128, 128, 255] =
   Inr (replicate 4 \<lparr>px = 0, py = 0, pz = 5120 / 51\<rparr>)"
  by (simp add: fromHeightmap_def fromHeightmap_pixel_def flat4_def band100_def Let_def upt_2
      numeral_eq_Suc)

theorem heightmap_export_import_witness:
  "\<exists>data g'. toHeightmap flat4 band100 = Inr data \<and> fromHeightmap flat4 band100 data = Inr g' \<and>
     data ! 0 = 128 \<and> data ! 3 = 255 \<and> \<bar>pz (g' ! 0) - 100\<bar> \<le> 200 / 510"
proof -
  have band: "minHeight band100 < maxHeight band100" by (simp add: band100_def)
  have n: "vertex_count band100 = 4" by (simp add: vertex_count_def band100_def)
  have g: "vertex_count band100 \<le> length flat4" by (simp add: n flat4_def)
  have inside: "\<forall>i < vertex_count band100.
      minHeight band100 \<le> pz (flat4 ! i) \<and> pz (flat4 ! i) \<le> maxHeight band100"
    unfolding n by (simp add: flat4_def band100_def)
  from heightmap_export_import [OF band g inside] obtain data g' where
    run: "toHeightmap flat4 band100 = Inr data" "fromHeightmap flat4 band100 data = Inr g'"
    and all: "\<forall>i < vertex_count band100.
       data ! (4 * i) = nat (round ((pz (flat4 ! i) - minHeight band100)
                               / (maxHeight band100 - minHeight band100) * 255)) \<and>
       data ! (4 * i + 1) = data ! (4 * i) \<and>
       data ! (4 * i + 2) = data ! (4 * i) \<and>
       data ! (4 * i + 3) = 255 \<and>
       \<bar>pz (g' ! i) - (pz (flat4 ! i) - minHeight band100)\<bar>
         \<le> (maxHeight band100 - minHeight band100) / 510"
    by blast
  have "0 < vertex_count band100" by (simp add: n)
  with all have "data ! (4 * 0) = nat (round ((pz (flat4 ! 0) - minHeight band100)
                               / (maxHeight band100 - minHeight band100) * 255)) \<and>
       data ! (4 * 0 + 3) = 255 \<and>
       \<bar>pz (g' ! 0) - (pz (flat4 ! 0) - minHeight band100)\<bar>
         \<le> (maxHeight band100 - minHeight band100) / 510"
    by blast
  then have "data ! 0 = 128 \<and> data ! 3 = 255 \<and> \<bar>pz (g' ! 0) - 100\<bar> \<le> 200 / 510"
    by (simp add: flat4_def band100_def round_def)
  with run show ?thesis by blast
qed

lemma fromHeightmap_white:
  "fromHeightmap flat4 band100
     [255, 255, 255, 255, 255, 255, 255, 255, 255, 255, 255, 255, 255, 255, 255, 255] =
   Inr (replicate 4 \<lparr>px = 0, py = 0, pz = 200\<rparr>)"
  by (simp add: fromHeightmap_def fromHeightmap_pixel_def flat4_def band100_def Let_def upt_2
      numeral_eq_Suc)

text \<open>
  C8. \<open>fromHeightmap\<close> does not map the pixels into \<open>[minHeight, maxHeight]\<close> and does not
  invert \<open>toHeightmap\<close>: it multiplies the intensity by \<open>maxHeight - minHeight\<close> and never
  adds the \<open>minHeight\<close> that \<open>toHeightmap\<close> subtracts. With the band \<open>[-100, 100]\<close> on a grid
  of \<open>2 \<times> 2\<close> vertices, elevation 0 is exported as grey level 128 and re-imported at
  \<open>5120/51\<close>, about 100.4, while half a grey level is \<open>200/510\<close>; and a white image is
  imported at elevation 200, above \<open>maxHeight = 100\<close>.
\<close>

theorem fromHeightmap_omits_minHeight:
  "bind_js (toHeightmap flat4 band100) (fromHeightmap flat4 band100) =
     Inr (replicate 4 \<lparr>px = 0, py = 0, pz = 5120 / 51\<rparr>) \<and>
   pz (flat4 ! 0) = 0 \<and>
   (maxHeight band100 - minHeight band100) / 510 < \<bar>5120 / 51 - pz (flat4 ! 0)\<bar> \<and>
   fromHeightmap flat4 band100
     [255, 255, 255, 255, 255, 255, 255, 255, 255, 255, 255, 255, 255, 255, 255, 255] =
     Inr (replicate 4 \<lparr>px = 0, py = 0, pz = 200\<rparr>) \<and>
   minHeight band100 = - 100 \<and> maxHeight band100 = 100"
proof -
  have band: "minHeight band100 = - 100" "maxHeight band100 = 100" by (simp_all add: band100_def)
  have "bind_js (toHeightmap flat4 band100) (fromHeightmap flat4 band100) =
     Inr (replicate 4 \<lparr>px = 0, py = 0, pz = 5120 / 51\<rparr>)"
    by (simp only: toHeightmap_flat4 bind_js_simps fromHeightmap_flat4)
  moreover have "pz (flat4 ! 0) = 0" by (simp add: flat4_def)
  moreover have "(maxHeight band100 - minHeight band100) / 510 < \<bar>5120 / 51 - (0::real)\<bar>"
    by (simp add: band100_def)
  ultimately show ?thesis using fromHeightmap_white band by simp
qed

section \<open>\<open>THREE.Terrain.DiamondSquare\<close>\<close>

subsection \<open>The scratch heightmap\<close>

text \<open>
  \<open>heightmap\<close> is a JavaScript array of arrays, built by assignment to its indices. It is
  a partial map from indices to rows, and a row a partial map from indices to numbers:
  \<open>heightmap[a][b]\<close> throws when row \<open>a\<close> is missing and is \<open>undefined\<close> when only the cell is.
\<close>

type_synonym heightmap = "int \<rightharpoonup> (int \<rightharpoonup> real)"

definition hm_get :: "heightmap \<Rightarrow> int \<Rightarrow> int \<Rightarrow> failure + real" where
  "hm_get hm a b =
     (case hm a of None \<Rightarrow> Inl TypeError
      | Some row \<Rightarrow> (case row b of None \<Rightarrow> Inl UndefinedRead | Some v \<Rightarrow> Inr v))"

definition hm_set :: "heightmap \<Rightarrow> int \<Rightarrow> int \<Rightarrow> real \<Rightarrow> failure + heightmap" where
  "hm_set hm a b v =
     (case hm a of None \<Rightarrow> Inl TypeError | Some row \<Rightarrow> Inr (hm(a \<mapsto> row(b \<mapsto> v))))"

text \<open>
  The remainder operator \<open>%\<close> on integers: the result has the sign of the dividend. Its
  divisor is positive wherever the generator uses it.
\<close>

definition js_rem :: "int \<Rightarrow> int \<Rightarrow> int" where
  "js_rem a b = sgn a * (\<bar>a\<bar> mod \<bar>b\<bar>)"

text \<open>
  The loop \<open>for (x = a; x < stop; x += step) body\<close> on integers. With a step that is not
  positive the counter never reaches the bound, and the loop does not return unless its
  body fails.
\<close>

function for_loop ::
  "int \<Rightarrow> int \<Rightarrow> int \<Rightarrow> (int \<Rightarrow> 's \<Rightarrow> failure + 's) \<Rightarrow> 's \<Rightarrow> failure + 's" where
  "for_loop x stop step body st =
     (if x < stop
      then (case body x st of
              Inl e \<Rightarrow> Inl e
            | Inr st' \<Rightarrow> if step \<le> 0 then Inl NoReturn else for_loop (x + step) stop step body st')
      else Inr st)"
  by pat_completeness auto
termination
  by (relation "measure (\<lambda>(x, stop, step, body, st). nat (stop - x))") auto

declare for_loop.simps [simp del]

text \<open>
  \<open>var segments = Math.max(options.xSegments, options.ySegments) + 1, n;
    for (n = 1; Math.pow(2, n) < segments; n++) {}
    segments = Math.pow(2, n);\<close>
\<close>

function DS_exponent :: "nat \<Rightarrow> nat \<Rightarrow> nat" where
  "DS_exponent n segments = (if 2 ^ n < segments then DS_exponent (n + 1) segments else n)"
  by pat_completeness auto
termination
proof (relation "measure (\<lambda>(n, segments). segments - 2 ^ n)")
  fix n segments :: nat
  assume "2 ^ n < segments"
  moreover have "(0::nat) < 2 ^ n" by simp
  ultimately have "segments - 2 * 2 ^ n < segments - 2 ^ n" by linarith
  then show "((n + 1, segments), (n, segments)) \<in> measure (\<lambda>(n, segments). segments - 2 ^ n)"
    by simp
qed simp

declare DS_exponent.simps [simp del]

definition DS_segments :: "options \<Rightarrow> nat" where
  "DS_segments opts =
     (let segments = max (xSegments opts) (ySegments opts) + 1
      in 2 ^ DS_exponent 1 segments)"

text \<open>
  \<open>for (i = 0; i <= segments; i++) {
      heightmap[i] = [];
      for (j = 0; j <= segments; j++) heightmap[i][j] = 0;
    }\<close>
  On integers the bound \<open>i <= segments\<close> is \<open>i < segments + 1\<close>.
\<close>

definition DS_init :: "int \<Rightarrow> failure + heightmap" where
  "DS_init segments =
     for_loop 0 (segments + 1) 1
       (\<lambda>i hm. for_loop 0 (segments + 1) 1 (\<lambda>j hm'. hm_set hm' i j 0) (hm(i \<mapsto> Map.empty)))
       Map.empty"

lemma DS_exponent_least:
  "n \<le> DS_exponent n segments \<and> segments \<le> 2 ^ DS_exponent n segments \<and>
   (\<forall>m. n \<le> m \<and> segments \<le> 2 ^ m \<longrightarrow> DS_exponent n segments \<le> m)"
proof (induction n segments rule: DS_exponent.induct)
  case (1 n segments)
  show ?case
  proof (cases "2 ^ n < segments")
    case False
    then show ?thesis by (subst (1 2 3) DS_exponent.simps) simp
  next
    case True
    then have unfold: "DS_exponent n segments = DS_exponent (n + 1) segments"
      by (subst DS_exponent.simps) simp
    have "n + 1 \<le> m" if "n \<le> m" "segments \<le> 2 ^ m" for m
    proof -
      from that(2) True have "m \<noteq> n" by auto
      with that(1) show ?thesis by simp
    qed
    with 1 [OF True] show ?thesis unfolding unfold by auto
  qed
qed

lemma for_loop_rule:
  assumes step: "0 < step" and "a \<le> x" and "(x - a) mod step = 0" and "I x st"
    and body: "\<And>y s. a \<le> y \<Longrightarrow> y < stop \<Longrightarrow> (y - a) mod step = 0 \<Longrightarrow> I y s \<Longrightarrow>
                 \<exists>s'. body y s = Inr s' \<and> I (y + step) s'"
  shows "\<exists>s' x'. for_loop x stop step body st = Inr s' \<and> x \<le> x' \<and> stop \<le> x' \<and>
           (x' < stop + step \<or> x' = x) \<and> I x' s'"
  using assms(2-4)
proof (induction "nat (stop - x)" arbitrary: x st rule: less_induct)
  case less
  show ?case
  proof (cases "x < stop")
    case False
    with less.prems(3) show ?thesis by (subst for_loop.simps) auto
  next
    case True
    from body [OF less.prems(1) True less.prems(2,3)] obtain s1 where
      s1: "body x st = Inr s1" "I (x + step) s1" by blast
    have "x + step - a = (x - a) + step" by simp
    then have "(x + step - a) mod step = 0" using less.prems(2) by (simp only: mod_add_self2)
    moreover have "a \<le> x + step" using less.prems(1) step by simp
    moreover have "nat (stop - (x + step)) < nat (stop - x)" using True step by simp
    ultimately have "\<exists>s' x'. for_loop (x + step) stop step body s1 = Inr s' \<and> x + step \<le> x' \<and>
        stop \<le> x' \<and> (x' < stop + step \<or> x' = x + step) \<and> I x' s'"
      using s1(2) by (intro less.hyps)
    then obtain s' x' where
      rest: "for_loop (x + step) stop step body s1 = Inr s'" "x + step \<le> x'" "stop \<le> x'"
        "x' < stop + step \<or> x' = x + step" "I x' s'"
      by (elim exE conjE)
    have "for_loop x stop step body st = Inr s'"
      using True s1(1) step rest(1) by (subst for_loop.simps) simp
    moreover have "x \<le> x'" "x' < stop + step \<or> x' = x"
      using rest(2,4) step True by auto
    ultimately show ?thesis using rest(3,5) by blast
  qed
qed

lemma for_loop_invariant:
  assumes "0 < step" and "I st"
    and body: "\<And>y s. a \<le> y \<Longrightarrow> y < stop \<Longrightarrow> (y - a) mod step = 0 \<Longrightarrow> I s \<Longrightarrow>
                 \<exists>s'. body y s = Inr s' \<and> I s'"
  shows "\<exists>s'. for_loop a stop step body st = Inr s' \<and> I s'"
  using for_loop_rule [of step a a "\<lambda>_. I" st stop body] assms by auto

definition zero_row :: "int \<Rightarrow> int \<rightharpoonup> real" where
  "zero_row segments = (\<lambda>j. if 0 \<le> j \<and> j \<le> segments then Some 0 else None)"

definition zero_heightmap :: "int \<Rightarrow> heightmap" where
  "zero_heightmap segments = (\<lambda>i. if 0 \<le> i \<and> i \<le> segments then Some (zero_row segments) else None)"

lemma DS_init_row:
  assumes "0 \<le> segments"
  shows "for_loop 0 (segments + 1) 1 (\<lambda>j hm'. hm_set hm' i j 0) (hm(i \<mapsto> Map.empty)) =
           Inr (hm(i \<mapsto> zero_row segments))"
proof -
  define J where "J = (\<lambda>y hm'. hm' = hm(i \<mapsto> (\<lambda>j. if 0 \<le> j \<and> j < y then Some (0::real) else None)))"
  have "\<exists>s' x'. for_loop 0 (segments + 1) 1 (\<lambda>j hm'. hm_set hm' i j 0) (hm(i \<mapsto> Map.empty)) = Inr s' \<and>
          0 \<le> x' \<and> segments + 1 \<le> x' \<and> (x' < segments + 1 + 1 \<or> x' = 0) \<and> J x' s'"
  proof (rule for_loop_rule)
    have "(\<lambda>j::int. if 0 \<le> j \<and> j < 0 then Some (0::real) else None) = Map.empty"
      by (intro ext) simp
    then show "J 0 (hm(i \<mapsto> Map.empty))" by (simp add: J_def)
    show "\<exists>s'. hm_set s i y 0 = Inr s' \<and> J (y + 1) s'" if "0 \<le> y" "J y s" for y s
    proof -
      have "(\<lambda>j. if 0 \<le> j \<and> j < y then Some (0::real) else None)(y \<mapsto> 0) =
            (\<lambda>j. if 0 \<le> j \<and> j < y + 1 then Some 0 else None)"
        using that(1) by (intro ext) auto
      then show ?thesis using that(2) by (simp add: J_def hm_set_def)
    qed
  qed simp_all
  then obtain s' x' where run: "for_loop 0 (segments + 1) 1 (\<lambda>j hm'. hm_set hm' i j 0) (hm(i \<mapsto> Map.empty)) = Inr s'"
    and x': "segments + 1 \<le> x'" "x' < segments + 1 + 1 \<or> x' = 0" and J: "J x' s'"
    by blast
  from x' assms have "x' = segments + 1" by linarith
  with J have "s' = hm(i \<mapsto> zero_row segments)"
    by (simp add: J_def zero_row_def)
  with run show ?thesis by simp
qed

lemma DS_init_zero:
  assumes "0 \<le> segments"
  shows "DS_init segments = Inr (zero_heightmap segments)"
proof -
  define I where "I = (\<lambda>x (hm :: heightmap). hm = (\<lambda>i. if 0 \<le> i \<and> i < x then Some (zero_row segments) else None))"
  let ?body = "\<lambda>i hm. for_loop 0 (segments + 1) 1 (\<lambda>j hm'. hm_set hm' i j 0) (hm(i \<mapsto> Map.empty))"
  have "\<exists>s' x'. for_loop 0 (segments + 1) 1 ?body Map.empty = Inr s' \<and>
          0 \<le> x' \<and> segments + 1 \<le> x' \<and> (x' < segments + 1 + 1 \<or> x' = 0) \<and> I x' s'"
  proof (rule for_loop_rule)
    have "(\<lambda>i::int. if 0 \<le> i \<and> i < 0 then Some (zero_row segments) else None) = Map.empty"
      by (intro ext) simp
    then show "I 0 Map.empty" by (simp add: I_def)
    show "\<exists>s'. ?body y s = Inr s' \<and> I (y + 1) s'" if "0 \<le> y" "I y s" for y s
    proof -
      have "(\<lambda>i. if 0 \<le> i \<and> i < y then Some (zero_row segments) else None)(y \<mapsto> zero_row segments) =
            (\<lambda>i. if 0 \<le> i \<and> i < y + 1 then Some (zero_row segments) else None)"
        using that(1) by (intro ext) auto
      then show ?thesis using that(2) by (simp add: I_def DS_init_row [OF assms])
    qed
  qed simp_all
  then obtain s' x' where run: "for_loop 0 (segments + 1) 1 ?body Map.empty = Inr s'"
    and x': "segments + 1 \<le> x'" "x' < segments + 1 + 1 \<or> x' = 0" and I: "I x' s'"
    by blast
  from x' assms have "x' = segments + 1" by linarith
  with I have "s' = zero_heightmap segments"
    by (simp add: I_def zero_heightmap_def)
  with run show ?thesis by (simp add: DS_init_def)
qed

lemma DS_segments_pow2:
  "\<exists>n. 1 \<le> n \<and> DS_segments opts = 2 ^ n \<and>
     max (xSegments opts) (ySegments opts) < 2 ^ n \<and>
     (\<forall>m. 1 \<le> m \<and> max (xSegments opts) (ySegments opts) < 2 ^ m \<longrightarrow> n \<le> m)"
proof -
  define s where "s = max (xSegments opts) (ySegments opts) + 1"
  define n where "n = DS_exponent 1 s"
  from DS_exponent_least [of 1 s] have n: "1 \<le> n" "s \<le> 2 ^ n"
    "\<And>m. 1 \<le> m \<Longrightarrow> s \<le> 2 ^ m \<Longrightarrow> n \<le> m"
    unfolding n_def by blast+
  have "DS_segments opts = 2 ^ n" by (simp add: DS_segments_def Let_def n_def s_def)
  moreover have "max (xSegments opts) (ySegments opts) < 2 ^ n" using n(2) unfolding s_def by linarith
  moreover have "n \<le> m" if "1 \<le> m" "max (xSegments opts) (ySegments opts) < 2 ^ m" for m
    using n(3) [of m] that unfolding s_def by linarith
  ultimately show ?thesis using n(1) by blast
qed

text \<open>
  C2 (amended). \<open>segments\<close> is \<open>2 ^ n\<close> for the least \<open>n \<ge> 1\<close> with
  \<open>max(xSegments, ySegments) < 2 ^ n\<close>: the smallest power of two, at least 2, that is
  strictly greater than \<open>max(xSegments, ySegments)\<close>. Before the displacement loop the
  scratch heightmap has the rows \<open>0..segments\<close>, each with the cells \<open>0..segments\<close>, all 0.
\<close>

theorem DS_segments_and_scratch:
  "\<exists>n hm. 1 \<le> n \<and> DS_segments opts = 2 ^ n \<and>
     max (xSegments opts) (ySegments opts) < 2 ^ n \<and>
     (\<forall>m. 1 \<le> m \<and> max (xSegments opts) (ySegments opts) < 2 ^ m \<longrightarrow> n \<le> m) \<and>
     DS_init (int (DS_segments opts)) = Inr hm \<and>
     dom hm = {0..int (DS_segments opts)} \<and>
     (\<forall>i\<in>{0..int (DS_segments opts)}. \<exists>row. hm i = Some row \<and>
        dom row = {0..int (DS_segments opts)} \<and>
        (\<forall>j\<in>{0..int (DS_segments opts)}. row j = Some 0))"
proof -
  define seg where "seg = int (DS_segments opts)"
  have init: "DS_init seg = Inr (zero_heightmap seg)" by (rule DS_init_zero) (simp add: seg_def)
  have "dom (zero_heightmap seg) = {0..seg}"
    by (auto simp: zero_heightmap_def dom_def)
  moreover have "dom (zero_row seg) = {0..seg}"
    by (auto simp: zero_row_def dom_def)
  then have "\<forall>i\<in>{0..seg}. \<exists>row. zero_heightmap seg i = Some row \<and> dom row = {0..seg} \<and>
        (\<forall>j\<in>{0..seg}. row j = Some 0)"
    by (simp add: zero_heightmap_def zero_row_def)
  ultimately show ?thesis
    using DS_segments_pow2 [of opts] init unfolding seg_def by blast
qed

lemma DS_segments_band100: "DS_segments band100 = 2"
  by (simp add: DS_segments_def band100_def DS_exponent.simps)

theorem DS_segments_and_scratch_witness:
  "DS_segments band100 = 2 \<and>
   (\<exists>hm row. DS_init (int (DS_segments band100)) = Inr hm \<and> hm 1 = Some row \<and> row 2 = Some 0)"
proof -
  from DS_segments_and_scratch [of band100] obtain hm where
    init: "DS_init (int (DS_segments band100)) = Inr hm"
    and rows: "\<forall>i\<in>{0..int (DS_segments band100)}. \<exists>row. hm i = Some row \<and>
        dom row = {0..int (DS_segments band100)} \<and>
        (\<forall>j\<in>{0..int (DS_segments band100)}. row j = Some 0)"
    by blast
  have "(1::int) \<in> {0..int (DS_segments band100)}" "(2::int) \<in> {0..int (DS_segments band100)}"
    by (simp_all add: DS_segments_band100)
  with rows obtain row where "hm 1 = Some row" "row 2 = Some 0" by blast
  with init DS_segments_band100 show ?thesis by blast
qed

text \<open>
  \<open>segments\<close> is not the smallest power of two that is at least \<open>max(xSegments, ySegments)\<close>:
  for \<open>xSegments = ySegments = 2\<close> the generator takes 4, and \<open>2 = 2 ^ 1\<close> is smaller.
\<close>

theorem DS_segments_counterexample:
  "DS_segments \<lparr>xSegments = 2, ySegments = 2, maxHeight = 100, minHeight = - 100, easing = (\<lambda>x. x)\<rparr> = 4 \<and>
   max (2::nat) 2 \<le> 2 ^ 1 \<and> (2::nat) ^ 1 < 4"
  by (simp add: DS_segments_def DS_exponent.simps)

subsection \<open>The displacement loop\<close>

text \<open>
  The state of the displacement loop: the scratch heightmap and the number of
  \<open>Math.random()\<close> calls made so far.
\<close>

type_synonym ds_state = "heightmap \<times> nat"

definition square_step ::
  "(real \<Rightarrow> real) \<Rightarrow> (nat \<Rightarrow> real) \<Rightarrow> real \<Rightarrow> int \<Rightarrow> int \<Rightarrow> int \<Rightarrow> int \<Rightarrow> ds_state \<Rightarrow> failure + ds_state" where
  "square_step ease rnd smoothing half whole x y st =
     (case st of (hm, calls) \<Rightarrow>
        let d = ease (rnd calls) * smoothing * 2 - smoothing in
        bind_js (hm_get hm x y) (\<lambda>top_left.
        bind_js (hm_get hm (x + whole) y) (\<lambda>top_right.
        bind_js (hm_get hm x (y + whole)) (\<lambda>bottom_left.
        bind_js (hm_get hm (x + whole) (y + whole)) (\<lambda>bottom_right.
        let avg = (top_left + top_right + bottom_left + bottom_right) * 0.25 in
        bind_js (hm_set hm (x + half) (y + half) (avg + d)) (\<lambda>hm'.
        Inr (hm', calls + 1)))))))"

definition diamond_step ::
  "(real \<Rightarrow> real) \<Rightarrow> (nat \<Rightarrow> real) \<Rightarrow> real \<Rightarrow> int \<Rightarrow> int \<Rightarrow> int \<Rightarrow> int \<Rightarrow> ds_state \<Rightarrow> failure + ds_state" where
  "diamond_step ease rnd smoothing segments half x y st =
     (case st of (hm, calls) \<Rightarrow>
        let size = segments + 1;
            d = ease (rnd calls) * smoothing * 2 - smoothing in
        bind_js (hm_get hm (js_rem (x - half + size) size) y) (\<lambda>middle_left.
        bind_js (hm_get hm (js_rem (x + half) size) y) (\<lambda>middle_right.
        bind_js (hm_get hm x (js_rem (y + half) size)) (\<lambda>middle_top.
        bind_js (hm_get hm x (js_rem (y - half + size) size)) (\<lambda>middle_bottom.
        let avg = (middle_left + middle_right + middle_top + middle_bottom) * 0.25 + d in
        bind_js (hm_set hm x y avg) (\<lambda>hm1.
        bind_js (if x = 0 then hm_set hm1 segments y avg else Inr hm1) (\<lambda>hm2.
        bind_js (if y = 0 then hm_set hm2 x segments avg else Inr hm2) (\<lambda>hm3.
        Inr (hm3, calls + 1)))))))))"

text \<open>
  One round of the loop \<open>for (var l = segments; l >= 2; l /= 2)\<close>, for an integer \<open>l\<close>:
  \<open>half = Math.round(l*0.5)\<close>, \<open>whole = Math.round(l)\<close>, then the square and the diamond
  pass. \<open>smoothing\<close> is the amplitude after \<open>smoothing /= 2\<close>.
\<close>

definition DS_level ::
  "(real \<Rightarrow> real) \<Rightarrow> (nat \<Rightarrow> real) \<Rightarrow> int \<Rightarrow> int \<Rightarrow> real \<Rightarrow> ds_state \<Rightarrow> failure + ds_state" where
  "DS_level ease rnd segments l smoothing st =
     (let half = round (real_of_int l * 0.5); whole = round (real_of_int l) in
      bind_js
        (for_loop 0 segments whole (\<lambda>x.
           for_loop 0 segments whole (\<lambda>y. square_step ease rnd smoothing half whole x y)) st)
        (for_loop 0 segments half (\<lambda>x.
           for_loop (js_rem (x + half) l) segments l (\<lambda>y.
             diamond_step ease rnd smoothing segments half x y))))"

text \<open>
  The loop over \<open>l\<close>. Halving an even \<open>l\<close> is exact. An odd \<open>l\<close> ends the loop when
  \<open>l/2 < 2\<close>; otherwise the source goes on with a fraction, which this model does not follow.
\<close>

function DS_levels ::
  "(real \<Rightarrow> real) \<Rightarrow> (nat \<Rightarrow> real) \<Rightarrow> int \<Rightarrow> int \<Rightarrow> real \<Rightarrow> ds_state \<Rightarrow> failure + ds_state" where
  "DS_levels ease rnd segments l smoothing st =
     (if 2 \<le> l
      then (case DS_level ease rnd segments l (smoothing / 2) st of
              Inl e \<Rightarrow> Inl e
            | Inr st' \<Rightarrow>
                if even l then DS_levels ease rnd segments (l div 2) (smoothing / 2) st'
                else if l < 4 then Inr st' else Inl FractionalStep)
      else Inr st)"
  by pat_completeness auto
termination
  by (relation "measure (\<lambda>(ease, rnd, segments, l, smoothing, st). nat l)") auto

declare DS_levels.simps [simp del]

definition DS_heightmap :: "options \<Rightarrow> (nat \<Rightarrow> real) \<Rightarrow> failure + ds_state" where
  "DS_heightmap opts rnd =
     (let segments = int (DS_segments opts);
          smoothing = maxHeight opts - minHeight opts
      in bind_js (DS_init segments) (\<lambda>heightmap.
           DS_levels (easing opts) rnd segments segments smoothing (heightmap, 0)))"

text \<open>The invariant of the displacement loop.\<close>

definition DS_full :: "int \<Rightarrow> heightmap \<Rightarrow> bool" where
  "DS_full segments hm \<longleftrightarrow>
     (\<forall>a b. 0 \<le> a \<and> a \<le> segments \<and> 0 \<le> b \<and> b \<le> segments \<longrightarrow> (\<exists>v. hm_get hm a b = Inr v))"

definition DS_toroidal :: "int \<Rightarrow> heightmap \<Rightarrow> bool" where
  "DS_toroidal segments hm \<longleftrightarrow>
     (\<forall>y. 0 \<le> y \<and> y \<le> segments \<longrightarrow> hm_get hm 0 y = hm_get hm segments y) \<and>
     (\<forall>x. 0 \<le> x \<and> x \<le> segments \<longrightarrow> hm_get hm x 0 = hm_get hm x segments)"

lemma hm_get_set:
  "hm_set hm a b v = Inr hm' \<Longrightarrow>
   hm_get hm' c d = (if c = a \<and> d = b then Inr v else hm_get hm c d)"
proof (cases "hm a")
  case None
  then show "hm_set hm a b v = Inr hm' \<Longrightarrow> ?thesis" by (simp add: hm_set_def)
next
  case (Some row)
  assume "hm_set hm a b v = Inr hm'"
  with Some have hm': "hm' = hm(a \<mapsto> row(b \<mapsto> v))" by (simp add: hm_set_def)
  show ?thesis
    unfolding hm' using Some by (cases "c = a"; cases "d = b") (simp_all add: hm_get_def)
qed

lemma hm_set_defined:
  "hm_get hm a b0 = Inr v0 \<Longrightarrow> \<exists>hm'. hm_set hm a b v = Inr hm'"
  by (auto simp: hm_set_def hm_get_def split: option.splits)

lemma DS_full_set:
  assumes "DS_full segments hm" "0 \<le> a" "a \<le> segments"
  shows "\<exists>hm'. hm_set hm a b v = Inr hm' \<and> DS_full segments hm' \<and>
           (\<forall>c d. hm_get hm' c d = (if c = a \<and> d = b then Inr v else hm_get hm c d))"
proof -
  from assms obtain v0 where "hm_get hm a 0 = Inr v0" unfolding DS_full_def by force
  from hm_set_defined [OF this] obtain hm' where set: "hm_set hm a b v = Inr hm'" by blast
  note get = hm_get_set [OF set]
  have "DS_full segments hm'"
    unfolding DS_full_def using assms(1) by (simp add: get DS_full_def)
  with set get show ?thesis by simp
qed

lemma js_rem_nonneg:
  assumes "0 \<le> a" "0 < b"
  shows "js_rem a b = a mod b" "0 \<le> js_rem a b" "js_rem a b < b"
proof -
  show eq: "js_rem a b = a mod b"
  proof (cases "a = 0")
    case True
    then show ?thesis by (simp add: js_rem_def)
  next
    case False
    with assms have "sgn a = 1" "\<bar>a\<bar> = a" "\<bar>b\<bar> = b" by simp_all
    then show ?thesis by (simp add: js_rem_def)
  qed
  show "0 \<le> js_rem a b" "js_rem a b < b" unfolding eq using assms(2) by simp_all
qed

definition DS_inv :: "int \<Rightarrow> ds_state \<Rightarrow> bool" where
  "DS_inv segments st \<longleftrightarrow> DS_full segments (fst st) \<and> DS_toroidal segments (fst st)"

lemma DS_full_get:
  "DS_full segments hm \<Longrightarrow> 0 \<le> a \<Longrightarrow> a \<le> segments \<Longrightarrow> 0 \<le> b \<Longrightarrow> b \<le> segments \<Longrightarrow>
   \<exists>v. hm_get hm a b = Inr v"
  unfolding DS_full_def by blast

lemma square_step_inv:
  assumes inv: "DS_inv segments st"
    and x: "0 \<le> x" "x + whole \<le> segments" and y: "0 \<le> y" "y + whole \<le> segments"
    and half: "0 < half" "half < whole"
  shows "\<exists>st'. square_step ease rnd smoothing half whole x y st = Inr st' \<and> DS_inv segments st'"
proof -
  obtain hm calls where st: "st = (hm, calls)" by (cases st)
  from inv have full: "DS_full segments hm" and tor: "DS_toroidal segments hm"
    by (simp_all add: DS_inv_def st)
  from x y half have range: "x \<le> segments" "0 \<le> x + whole" "y \<le> segments" "0 \<le> y + whole"
    "0 \<le> x + half" "x + half \<le> segments" by linarith+
  from DS_full_get [OF full x(1) range(1) y(1) range(3)] obtain tl where
    tl: "hm_get hm x y = Inr tl" by blast
  from DS_full_get [OF full range(2) x(2) y(1) range(3)] obtain tr where
    tr: "hm_get hm (x + whole) y = Inr tr" by blast
  from DS_full_get [OF full x(1) range(1) range(4) y(2)] obtain bl where
    bl: "hm_get hm x (y + whole) = Inr bl" by blast
  from DS_full_get [OF full range(2) x(2) range(4) y(2)] obtain br where
    br: "hm_get hm (x + whole) (y + whole) = Inr br" by blast
  define v where "v = (tl + tr + bl + br) * 0.25 + (ease (rnd calls) * smoothing * 2 - smoothing)"
  from DS_full_set [OF full range(5,6), of "y + half" v] obtain hm' where
    set: "hm_set hm (x + half) (y + half) v = Inr hm'" and full': "DS_full segments hm'"
    and get: "\<And>c d. hm_get hm' c d = (if c = x + half \<and> d = y + half then Inr v else hm_get hm c d)"
    by blast
  have interior: "x + half \<noteq> 0" "x + half \<noteq> segments" "y + half \<noteq> 0" "y + half \<noteq> segments"
    using x y half by linarith+
  have "DS_toroidal segments hm'"
    using tor interior unfolding DS_toroidal_def by (simp add: get)
  with full' have "DS_inv segments (hm', calls + 1)" by (simp add: DS_inv_def)
  moreover have "square_step ease rnd smoothing half whole x y st = Inr (hm', calls + 1)"
    using set by (simp add: square_step_def st tl tr bl br Let_def v_def)
  ultimately show ?thesis by blast
qed

lemma diamond_step_inv:
  assumes inv: "DS_inv segments st"
    and x: "0 \<le> x" "x < segments" and y: "0 \<le> y" "y < segments"
    and off_corner: "x \<noteq> 0 \<or> y \<noteq> 0"
    and half: "0 < half" "half \<le> segments"
  shows "\<exists>st'. diamond_step ease rnd smoothing segments half x y st = Inr st' \<and> DS_inv segments st'"
proof -
  obtain hm calls where st: "st = (hm, calls)" by (cases st)
  from inv have full: "DS_full segments hm" and tor: "DS_toroidal segments hm"
    by (simp_all add: DS_inv_def st)
  define size where "size = segments + 1"
  have size: "0 < size" using x by (simp add: size_def)
  have le: "x \<le> segments" "y \<le> segments" "0 \<le> segments" "segments \<le> segments"
    using x y by simp_all
  have idx: "0 \<le> js_rem a size \<and> js_rem a size \<le> segments" if "0 \<le> a" for a
    using js_rem_nonneg(2,3) [OF that size] by (simp add: size_def)
  have nonneg: "0 \<le> x - half + size" "0 \<le> x + half" "0 \<le> y + half" "0 \<le> y - half + size"
    using x y half by (simp_all add: size_def)
  from idx [OF nonneg(1)] DS_full_get [OF full _ _ y(1) le(2)] obtain ml where
    ml: "hm_get hm (js_rem (x - half + size) size) y = Inr ml" by blast
  from idx [OF nonneg(2)] DS_full_get [OF full _ _ y(1) le(2)] obtain mr where
    mr: "hm_get hm (js_rem (x + half) size) y = Inr mr" by blast
  from idx [OF nonneg(3)] DS_full_get [OF full x(1) le(1)] obtain mt where
    mt: "hm_get hm x (js_rem (y + half) size) = Inr mt" by blast
  from idx [OF nonneg(4)] DS_full_get [OF full x(1) le(1)] obtain mb where
    mb: "hm_get hm x (js_rem (y - half + size) size) = Inr mb" by blast
  define avg where "avg = (ml + mr + mt + mb) * 0.25 + (ease (rnd calls) * smoothing * 2 - smoothing)"
  from DS_full_set [OF full x(1) le(1), of y avg] obtain hm1 where
    set1: "hm_set hm x y avg = Inr hm1" and full1: "DS_full segments hm1"
    and get1: "\<And>c d. hm_get hm1 c d = (if c = x \<and> d = y then Inr avg else hm_get hm c d)"
    by blast
  have "\<exists>hm2. (if x = 0 then hm_set hm1 segments y avg else Inr hm1) = Inr hm2 \<and>
      DS_full segments hm2 \<and>
      (\<forall>c d. hm_get hm2 c d = (if x = 0 \<and> c = segments \<and> d = y then Inr avg else hm_get hm1 c d))"
  proof (cases "x = 0")
    case True
    from DS_full_set [OF full1 le(3,4), of y avg] show ?thesis using True by simp
  next
    case False
    with full1 show ?thesis by simp
  qed
  then obtain hm2 where
    set2: "(if x = 0 then hm_set hm1 segments y avg else Inr hm1) = Inr hm2"
    and full2: "DS_full segments hm2"
    and get2: "\<And>c d. hm_get hm2 c d =
        (if x = 0 \<and> c = segments \<and> d = y then Inr avg else hm_get hm1 c d)"
    by blast
  have "\<exists>hm3. (if y = 0 then hm_set hm2 x segments avg else Inr hm2) = Inr hm3 \<and>
      DS_full segments hm3 \<and>
      (\<forall>c d. hm_get hm3 c d = (if y = 0 \<and> c = x \<and> d = segments then Inr avg else hm_get hm2 c d))"
  proof (cases "y = 0")
    case True
    from DS_full_set [OF full2 x(1) le(1), of segments avg] show ?thesis using True by simp
  next
    case False
    with full2 show ?thesis by simp
  qed
  then obtain hm3 where
    set3: "(if y = 0 then hm_set hm2 x segments avg else Inr hm2) = Inr hm3"
    and full3: "DS_full segments hm3"
    and get3: "\<And>c d. hm_get hm3 c d =
        (if y = 0 \<and> c = x \<and> d = segments then Inr avg else hm_get hm2 c d)"
    by blast
  have columns: "hm_get hm3 0 b = hm_get hm3 segments b" if "0 \<le> b" "b \<le> segments" for b
  proof -
    from tor that have "hm_get hm 0 b = hm_get hm segments b" by (simp add: DS_toroidal_def)
    then show ?thesis using x y off_corner by (auto simp: get3 get2 get1)
  qed
  have rows: "hm_get hm3 a 0 = hm_get hm3 a segments" if "0 \<le> a" "a \<le> segments" for a
  proof -
    from tor that have "hm_get hm a 0 = hm_get hm a segments" by (simp add: DS_toroidal_def)
    then show ?thesis using x y off_corner by (auto simp: get3 get2 get1)
  qed
  from columns rows have "DS_toroidal segments hm3" by (simp add: DS_toroidal_def)
  with full3 have "DS_inv segments (hm3, calls + 1)" by (simp add: DS_inv_def)
  moreover have "diamond_step ease rnd smoothing segments half x y st = Inr (hm3, calls + 1)"
    unfolding diamond_step_def st Let_def prod.case size_def [symmetric] ml mr mt mb bind_js_simps
      avg_def [symmetric] set1 set2 set3
    by simp
  ultimately show ?thesis by blast
qed

lemma next_multiple_le:
  fixes l x segments :: int
  assumes "x mod l = 0" "l dvd segments" "x < segments"
  shows "x + l \<le> segments"
proof -
  from assms(1) have "l dvd x" by (simp add: dvd_eq_mod_eq_0)
  with assms(2) have "l dvd segments - x" by (rule dvd_diff)
  moreover have "0 < segments - x" using assms(3) by simp
  ultimately have "l \<le> segments - x" by (rule zdvd_imp_le)
  then show ?thesis by simp
qed

lemma DS_level_inv:
  assumes inv: "DS_inv segments st"
    and l: "l = 2 * h" "0 < h" "l dvd segments" "0 < segments"
  shows "\<exists>st'. DS_level ease rnd segments l smoothing st = Inr st' \<and> DS_inv segments st'"
proof -
  have "real_of_int l * 0.5 = real_of_int h" using l(1) by simp
  then have half: "round (real_of_int l * 0.5) = h" by (simp only: round_of_int)
  have whole: "round (real_of_int l) = l" by (rule round_of_int)
  have lpos: "0 < l" "h < l" using l(1,2) by simp_all
  have "l \<le> segments" using l(3,4) by (rule zdvd_imp_le)
  then have h_le: "h \<le> segments" using lpos(2) by simp
  have squares: "\<exists>st'. for_loop 0 segments l (\<lambda>x.
           for_loop 0 segments l (\<lambda>y. square_step ease rnd smoothing h l x y)) st = Inr st' \<and>
         DS_inv segments st'"
  proof (rule for_loop_invariant [where I = "DS_inv segments", OF lpos(1) inv])
    fix x s
    assume x: "0 \<le> x" "x < segments" "(x - 0) mod l = 0" and s: "DS_inv segments s"
    from x(3) have "x mod l = 0" by simp
    from next_multiple_le [OF this l(3) x(2)] have x_le: "x + l \<le> segments" .
    show "\<exists>s'. for_loop 0 segments l (\<lambda>y. square_step ease rnd smoothing h l x y) s = Inr s' \<and>
            DS_inv segments s'"
    proof (rule for_loop_invariant [where I = "DS_inv segments", OF lpos(1) s])
      fix y t
      assume y: "0 \<le> y" "y < segments" "(y - 0) mod l = 0" and t: "DS_inv segments t"
      from y(3) have "y mod l = 0" by simp
      from next_multiple_le [OF this l(3) y(2)] have y_le: "y + l \<le> segments" .
      from square_step_inv [OF t x(1) x_le y(1) y_le l(2) lpos(2)]
      show "\<exists>s'. square_step ease rnd smoothing h l x y t = Inr s' \<and> DS_inv segments s'" .
    qed
  qed
  then obtain st1 where st1: "for_loop 0 segments l (\<lambda>x.
           for_loop 0 segments l (\<lambda>y. square_step ease rnd smoothing h l x y)) st = Inr st1"
    and inv1: "DS_inv segments st1" by blast
  have diamonds: "\<exists>st'. for_loop 0 segments h (\<lambda>x.
           for_loop (js_rem (x + h) l) segments l (\<lambda>y.
             diamond_step ease rnd smoothing segments h x y)) st1 = Inr st' \<and>
         DS_inv segments st'"
  proof (rule for_loop_invariant [where I = "DS_inv segments", OF l(2) inv1])
    fix x s
    assume x: "0 \<le> x" "x < segments" and s: "DS_inv segments s"
    have "0 \<le> x + h" using x(1) l(2) by simp
    note start = js_rem_nonneg [OF this lpos(1)]
    have start_pos: "0 < js_rem (x + h) l" if "x = 0"
      using that start(1) l(2) lpos(2) by simp
    show "\<exists>s'. for_loop (js_rem (x + h) l) segments l (\<lambda>y.
             diamond_step ease rnd smoothing segments h x y) s = Inr s' \<and> DS_inv segments s'"
    proof (rule for_loop_invariant [where I = "DS_inv segments", OF lpos(1) s])
      fix y t
      assume y: "js_rem (x + h) l \<le> y" "y < segments" and t: "DS_inv segments t"
      have y0: "0 \<le> y" using y(1) start(2) by simp
      have off_corner: "x \<noteq> 0 \<or> y \<noteq> 0" using start_pos y(1) by auto
      from diamond_step_inv [OF t x y0 y(2) off_corner l(2) h_le]
      show "\<exists>s'. diamond_step ease rnd smoothing segments h x y t = Inr s' \<and> DS_inv segments s'" .
    qed
  qed
  show ?thesis
    unfolding DS_level_def Let_def half whole st1 bind_js_simps by (rule diamonds)
qed

lemma DS_levels_inv:
  assumes "DS_inv segments st" "2 ^ k dvd segments" "0 < segments"
  shows "\<exists>st'. DS_levels ease rnd segments (2 ^ k) smoothing st = Inr st' \<and> DS_inv segments st'"
  using assms(1,2)
proof (induction k arbitrary: smoothing st)
  case 0
  then show ?case by (subst DS_levels.simps) simp
next
  case (Suc k)
  have l: "(2::int) ^ Suc k = 2 * 2 ^ k" "(0::int) < 2 ^ k" by simp_all
  from DS_level_inv [OF Suc.prems(1) l Suc.prems(2) assms(3)] obtain st1 where
    st1: "DS_level ease rnd segments (2 ^ Suc k) (smoothing / 2) st = Inr st1"
    and inv1: "DS_inv segments st1" by blast
  have "(2::int) ^ k dvd 2 ^ Suc k" by simp
  then have "(2::int) ^ k dvd segments" using Suc.prems(2) by (rule dvd_trans)
  from Suc.IH [OF inv1 this] obtain st' where
    rest: "DS_levels ease rnd segments (2 ^ k) (smoothing / 2) st1 = Inr st'"
    and inv': "DS_inv segments st'" by blast
  have "(2::int) \<le> 2 ^ Suc k" "even ((2::int) ^ Suc k)" "(2::int) ^ Suc k div 2 = 2 ^ k"
    by simp_all
  then have "DS_levels ease rnd segments (2 ^ Suc k) smoothing st = Inr st'"
    using st1 rest by (subst DS_levels.simps) (simp del: power_Suc)
  with inv' show ?case by blast
qed

lemma hm_get_zero_heightmap:
  "0 \<le> a \<Longrightarrow> a \<le> segments \<Longrightarrow> 0 \<le> b \<Longrightarrow> b \<le> segments \<Longrightarrow>
   hm_get (zero_heightmap segments) a b = Inr 0"
  by (simp add: hm_get_def zero_heightmap_def zero_row_def)

lemma DS_heightmap_inv:
  "\<exists>hm calls. DS_heightmap opts rnd = Inr (hm, calls) \<and>
     DS_full (int (DS_segments opts)) hm \<and> DS_toroidal (int (DS_segments opts)) hm"
proof -
  define seg where "seg = int (DS_segments opts)"
  from DS_segments_pow2 [of opts] obtain n where n: "DS_segments opts = 2 ^ n" by blast
  then have seg: "seg = 2 ^ n" by (simp add: seg_def)
  then have pos: "0 < seg" by simp
  have init: "DS_init seg = Inr (zero_heightmap seg)" by (rule DS_init_zero) (simp add: seg_def)
  have "DS_full seg (zero_heightmap seg)"
    by (simp add: DS_full_def hm_get_zero_heightmap)
  moreover have "DS_toroidal seg (zero_heightmap seg)"
    using pos by (simp add: DS_toroidal_def hm_get_zero_heightmap)
  ultimately have inv0: "DS_inv seg (zero_heightmap seg, 0)" by (simp add: DS_inv_def)
  have "(2::int) ^ n dvd seg" by (simp add: seg)
  from DS_levels_inv [OF inv0 this pos] obtain st' where
    "DS_levels (easing opts) rnd seg (2 ^ n) (maxHeight opts - minHeight opts)
       (zero_heightmap seg, 0) = Inr st'" and "DS_inv seg st'"
    by blast
  then have "DS_heightmap opts rnd = Inr (fst st', snd st')" "DS_full seg (fst st')"
    "DS_toroidal seg (fst st')"
    by (simp_all add: DS_heightmap_def Let_def seg_def [symmetric] init seg [symmetric] DS_inv_def)
  then show ?thesis unfolding seg_def by blast
qed

text \<open>
  C3. The displacement loop returns, and in the scratch heightmap it leaves
  \<open>heightmap[0][y] = heightmap[segments][y]\<close> for every \<open>y\<close> in \<open>0..segments\<close> and
  \<open>heightmap[x][0] = heightmap[x][segments]\<close> for every \<open>x\<close> in \<open>0..segments\<close>, for every
  easing function and every sequence of random draws.
\<close>

theorem DS_toroidal_edges:
  "\<exists>hm calls. DS_heightmap opts rnd = Inr (hm, calls) \<and>
     (\<forall>y. 0 \<le> y \<and> y \<le> int (DS_segments opts) \<longrightarrow>
        (\<exists>v. hm_get hm 0 y = Inr v \<and> hm_get hm (int (DS_segments opts)) y = Inr v)) \<and>
     (\<forall>x. 0 \<le> x \<and> x \<le> int (DS_segments opts) \<longrightarrow>
        (\<exists>v. hm_get hm x 0 = Inr v \<and> hm_get hm x (int (DS_segments opts)) = Inr v))"
proof -
  define seg where "seg = int (DS_segments opts)"
  from DS_heightmap_inv [of opts rnd] obtain hm calls where
    run: "DS_heightmap opts rnd = Inr (hm, calls)"
    and full: "DS_full seg hm" and tor: "DS_toroidal seg hm"
    unfolding seg_def by blast
  have seg0: "0 \<le> seg" by (simp add: seg_def)
  have "\<exists>v. hm_get hm 0 y = Inr v \<and> hm_get hm seg y = Inr v" if "0 \<le> y" "y \<le> seg" for y
  proof -
    from DS_full_get [OF full _ seg0 that] obtain v where "hm_get hm 0 y = Inr v" by auto
    moreover from tor that have "hm_get hm 0 y = hm_get hm seg y" by (simp add: DS_toroidal_def)
    ultimately show ?thesis by simp
  qed
  moreover have "\<exists>v. hm_get hm x 0 = Inr v \<and> hm_get hm x seg = Inr v" if "0 \<le> x" "x \<le> seg" for x
  proof -
    from DS_full_get [OF full that _ seg0] obtain v where "hm_get hm x 0 = Inr v" by auto
    moreover from tor that have "hm_get hm x 0 = hm_get hm x seg" by (simp add: DS_toroidal_def)
    ultimately show ?thesis by simp
  qed
  ultimately show ?thesis using run unfolding seg_def by blast
qed

theorem DS_toroidal_edges_witness:
  "\<exists>hm calls v w. DS_heightmap band100 (\<lambda>k. 1 / 2) = Inr (hm, calls) \<and>
     hm_get hm 0 1 = Inr v \<and> hm_get hm 2 1 = Inr v \<and>
     hm_get hm 1 0 = Inr w \<and> hm_get hm 1 2 = Inr w"
proof -
  from DS_toroidal_edges [of band100 "\<lambda>k. 1 / 2"] obtain hm calls where
    run: "DS_heightmap band100 (\<lambda>k. 1 / 2) = Inr (hm, calls)"
    and columns: "\<forall>y. 0 \<le> y \<and> y \<le> int (DS_segments band100) \<longrightarrow>
        (\<exists>v. hm_get hm 0 y = Inr v \<and> hm_get hm (int (DS_segments band100)) y = Inr v)"
    and rows: "\<forall>x. 0 \<le> x \<and> x \<le> int (DS_segments band100) \<longrightarrow>
        (\<exists>v. hm_get hm x 0 = Inr v \<and> hm_get hm x (int (DS_segments band100)) = Inr v)"
    by blast
  have seg: "int (DS_segments band100) = 2" by (simp add: DS_segments_band100)
  from columns [unfolded seg, rule_format, of 1] obtain v where
    "hm_get hm 0 1 = Inr v" "hm_get hm 2 1 = Inr v" by auto
  moreover from rows [unfolded seg, rule_format, of 1] obtain w where
    "hm_get hm 1 0 = Inr w" "hm_get hm 1 2 = Inr w" by auto
  ultimately show ?thesis using run by blast
qed

subsection \<open>Applying the scratch heightmap\<close>

text \<open>
  Modelled from the spec: \<open>THREE.Math.clamp\<close> belongs to three.js and is not part of this
  repository. The spec says the value is clamped to \<open>[minHeight, maxHeight]\<close>; three.js
  computes \<open>Math.max(min, Math.min(max, value))\<close>.
\<close>

definition clamp :: "real \<Rightarrow> real \<Rightarrow> real \<Rightarrow> real" where
  "clamp v lo hi = max lo (min hi v)"

text \<open>
  \<open>for (i = 0; i < xl; i++)
      for (j = 0; j < yl; j++)
        g[j * xl + i].z += THREE.Math.clamp(heightmap[i][j], options.minHeight, options.maxHeight);\<close>
\<close>

definition DS_apply_vertex ::
  "heightmap \<Rightarrow> options \<Rightarrow> nat \<Rightarrow> nat \<Rightarrow> vector3 list \<Rightarrow> failure + vector3 list" where
  "DS_apply_vertex heightmap opts i j g =
     (let xl = xSegments opts + 1; k = j * xl + i in
      if length g \<le> k then Inl TypeError
      else bind_js (hm_get heightmap (int i) (int j)) (\<lambda>h.
             Inr (g[k := (g ! k)\<lparr>pz := pz (g ! k) + clamp h (minHeight opts) (maxHeight opts)\<rparr>])))"

definition DiamondSquare :: "vector3 list \<Rightarrow> options \<Rightarrow> (nat \<Rightarrow> real) \<Rightarrow> failure + vector3 list" where
  "DiamondSquare g opts rnd =
     bind_js (DS_heightmap opts rnd) (\<lambda>(heightmap, calls).
       let xl = xSegments opts + 1; yl = ySegments opts + 1 in
       for_each [0..<xl] (\<lambda>i. for_each [0..<yl] (\<lambda>j. DS_apply_vertex heightmap opts i j)) g)"

lemma column_major_inj:
  "inj_on (\<lambda>(i, j). j * xl + i) (set (List.product [0..<xl] [0..<yl]))"
proof (rule inj_onI, clarsimp)
  fix i j i' j' :: nat
  assume "i < xl" "i' < xl" and eq: "j * xl + i = j' * xl + i'"
  then have "(j * xl + i) div xl = (j' * xl + i') div xl"
    "(j * xl + i) mod xl = (j' * xl + i') mod xl" by simp_all
  with \<open>i < xl\<close> \<open>i' < xl\<close> show "i = i' \<and> j = j'" by simp
qed

lemma column_major_bound:
  fixes i j xl yl :: nat
  assumes "i < xl" "j < yl"
  shows "j * xl + i < xl * yl"
proof -
  have "j * xl + i < Suc j * xl" using assms(1) by simp
  also have "\<dots> \<le> yl * xl" using assms(2) by (intro mult_le_mono1) simp
  finally show ?thesis by (simp add: mult.commute)
qed

lemma DS_apply_adds:
  assumes g: "vertex_count opts \<le> length g"
    and hm: "\<And>i j. i \<le> xSegments opts \<Longrightarrow> j \<le> ySegments opts \<Longrightarrow>
               hm_get heightmap (int i) (int j) = Inr (H i j)"
  shows "\<exists>g'. for_each [0..<xSegments opts + 1] (\<lambda>i. for_each [0..<ySegments opts + 1] (\<lambda>j.
              DS_apply_vertex heightmap opts i j)) g = Inr g' \<and> length g' = length g \<and>
           (\<forall>i j. i \<le> xSegments opts \<and> j \<le> ySegments opts \<longrightarrow>
              pz (g' ! (j * (xSegments opts + 1) + i)) =
                pz (g ! (j * (xSegments opts + 1) + i)) + clamp (H i j) (minHeight opts) (maxHeight opts))"
proof -
  define xl yl where "xl = xSegments opts + 1" and "yl = ySegments opts + 1"
  define ps where "ps = List.product [0..<xl] [0..<yl]"
  define ix where "ix = (\<lambda>(i :: nat, j :: nat). j * xl + i)"
  define F where "F = (\<lambda>(i, j) (v :: vector3).
     v\<lparr>pz := pz v + clamp (H i j) (minHeight opts) (maxHeight opts)\<rparr>)"
  define body where "body = (\<lambda>(i, j). DS_apply_vertex heightmap opts i j)"
  have n: "vertex_count opts = xl * yl" by (simp add: vertex_count_def xl_def yl_def)
  have mem: "(i, j) \<in> set ps \<longleftrightarrow> i \<le> xSegments opts \<and> j \<le> ySegments opts" for i j
    by (auto simp: ps_def xl_def yl_def)
  have bound: "ix p < length g" if "p \<in> set ps" for p
  proof -
    obtain i j where p: "p = (i, j)" by (cases p)
    with that have "i < xl" "j < yl" by (simp_all add: ps_def)
    from column_major_bound [OF this] g n show ?thesis by (simp add: p ix_def)
  qed
  have run: "for_each [0..<xl] (\<lambda>i. for_each [0..<yl] (\<lambda>j. DS_apply_vertex heightmap opts i j)) g =
      for_each ps body g"
    unfolding ps_def body_def by (rule for_each_product)
  have "\<exists>g'. for_each ps body g = Inr g' \<and> length g' = length g \<and>
          (\<forall>p\<in>set ps. g' ! ix p = F p (g ! ix p)) \<and>
          (\<forall>k. k \<notin> ix ` set ps \<longrightarrow> g' ! k = g ! k)"
  proof (rule for_each_pointwise)
    show "distinct ps" by (simp add: ps_def distinct_product)
    show "inj_on ix (set ps)" unfolding ix_def ps_def by (rule column_major_inj)
    show "\<forall>p\<in>set ps. ix p < length g" using bound by blast
    show "body p g' = Inr (g'[ix p := F p (g' ! ix p)])"
      if "p \<in> set ps" "length g' = length g" for p g'
    proof -
      obtain i j where p: "p = (i, j)" by (cases p)
      from that(1) have ij: "i \<le> xSegments opts" "j \<le> ySegments opts" by (simp_all add: p mem)
      from bound [OF that(1)] that(2) have "j * xl + i < length g'" by (simp add: p ix_def)
      then show ?thesis
        unfolding p body_def F_def ix_def prod.case DS_apply_vertex_def Let_def xl_def [symmetric]
          hm [OF ij] bind_js_simps
        by simp
    qed
  qed
  then obtain g' where g': "for_each ps body g = Inr g'" "length g' = length g"
    "\<forall>p\<in>set ps. g' ! ix p = F p (g ! ix p)"
    by blast
  have "pz (g' ! (j * xl + i)) = pz (g ! (j * xl + i)) + clamp (H i j) (minHeight opts) (maxHeight opts)"
    if "i \<le> xSegments opts" "j \<le> ySegments opts" for i j
  proof -
    from that have "(i, j) \<in> set ps" by (simp add: mem)
    with g'(3) have "g' ! ix (i, j) = F (i, j) (g ! ix (i, j))" by (rule bspec)
    then show ?thesis by (simp add: ix_def F_def)
  qed
  with g'(1,2) run show ?thesis unfolding xl_def yl_def by simp
qed

text \<open>
  C1. On a vertex array that holds the \<open>(xSegments+1) * (ySegments+1)\<close> grid vertices,
  \<open>DiamondSquare\<close> returns, and for every \<open>i \<le> xSegments\<close> and \<open>j \<le> ySegments\<close> the elevation
  of the vertex at index \<open>j*(xSegments+1)+i\<close> is its prior elevation plus the scratch value
  \<open>heightmap[i][j]\<close> clamped to \<open>[minHeight, maxHeight]\<close>.
\<close>

theorem DiamondSquare_adds_clamped:
  assumes "vertex_count opts \<le> length g"
  shows "\<exists>hm calls g'. DS_heightmap opts rnd = Inr (hm, calls) \<and>
           DiamondSquare g opts rnd = Inr g' \<and> length g' = length g \<and>
           (\<forall>i j. i \<le> xSegments opts \<and> j \<le> ySegments opts \<longrightarrow>
              (\<exists>h. hm_get hm (int i) (int j) = Inr h \<and>
                 pz (g' ! (j * (xSegments opts + 1) + i)) =
                   pz (g ! (j * (xSegments opts + 1) + i)) +
                   clamp h (minHeight opts) (maxHeight opts)))"
proof -
  define seg where "seg = int (DS_segments opts)"
  from DS_heightmap_inv [of opts rnd] obtain hm calls where
    run: "DS_heightmap opts rnd = Inr (hm, calls)" and full: "DS_full seg hm"
    unfolding seg_def by blast
  from DS_segments_pow2 [of opts] obtain n where
    "DS_segments opts = 2 ^ n" "max (xSegments opts) (ySegments opts) < 2 ^ n" by blast
  then have cover: "int (xSegments opts) \<le> seg" "int (ySegments opts) \<le> seg"
    by (simp_all add: seg_def)
  define H where "H = (\<lambda>i j. case hm_get hm (int i) (int j) of Inr v \<Rightarrow> v | Inl e \<Rightarrow> 0)"
  have H: "hm_get hm (int i) (int j) = Inr (H i j)"
    if "i \<le> xSegments opts" "j \<le> ySegments opts" for i j
  proof -
    from that cover have "int i \<le> seg" "int j \<le> seg" by linarith+
    from DS_full_get [OF full _ this(1) _ this(2)] obtain v where
      "hm_get hm (int i) (int j) = Inr v" by auto
    then show ?thesis by (simp add: H_def)
  qed
  from DS_apply_adds [OF assms H] obtain g' where
    applied: "for_each [0..<xSegments opts + 1] (\<lambda>i. for_each [0..<ySegments opts + 1] (\<lambda>j.
              DS_apply_vertex hm opts i j)) g = Inr g'"
    and len: "length g' = length g"
    and added: "\<And>i j. i \<le> xSegments opts \<Longrightarrow> j \<le> ySegments opts \<Longrightarrow>
      pz (g' ! (j * (xSegments opts + 1) + i)) =
        pz (g ! (j * (xSegments opts + 1) + i)) + clamp (H i j) (minHeight opts) (maxHeight opts)"
    by blast
  have "DiamondSquare g opts rnd = Inr g'"
    unfolding DiamondSquare_def run bind_js_simps prod.case Let_def by (rule applied)
  moreover have "\<exists>h. hm_get hm (int i) (int j) = Inr h \<and>
      pz (g' ! (j * (xSegments opts + 1) + i)) =
        pz (g ! (j * (xSegments opts + 1) + i)) + clamp h (minHeight opts) (maxHeight opts)"
    if "i \<le> xSegments opts" "j \<le> ySegments opts" for i j
    using H [OF that] added [OF that] by blast
  ultimately show ?thesis using run len by blast
qed

theorem DiamondSquare_adds_clamped_witness:
  "\<exists>hm calls g' h. DS_heightmap band100 (\<lambda>k. 1 / 2) = Inr (hm, calls) \<and>
     DiamondSquare flat4 band100 (\<lambda>k. 1 / 2) = Inr g' \<and>
     hm_get hm 1 1 = Inr h \<and> pz (g' ! 3) = pz (flat4 ! 3) + clamp h (- 100) 100"
proof -
  have "vertex_count band100 \<le> length flat4"
    by (simp add: vertex_count_def band100_def flat4_def)
  from DiamondSquare_adds_clamped [OF this, of "\<lambda>k. 1 / 2"] obtain hm calls g' where
    run: "DS_heightmap band100 (\<lambda>k. 1 / 2) = Inr (hm, calls)"
      "DiamondSquare flat4 band100 (\<lambda>k. 1 / 2) = Inr g'"
    and added: "\<forall>i j. i \<le> xSegments band100 \<and> j \<le> ySegments band100 \<longrightarrow>
              (\<exists>h. hm_get hm (int i) (int j) = Inr h \<and>
                 pz (g' ! (j * (xSegments band100 + 1) + i)) =
                   pz (flat4 ! (j * (xSegments band100 + 1) + i)) +
                   clamp h (minHeight band100) (maxHeight band100))"
    by blast
  have "1 \<le> xSegments band100 \<and> 1 \<le> ySegments band100" by (simp add: band100_def)
  with added [rule_format, of 1 1] obtain h where
    "hm_get hm (int 1) (int 1) = Inr h"
    "pz (g' ! (1 * (xSegments band100 + 1) + 1)) =
       pz (flat4 ! (1 * (xSegments band100 + 1) + 1)) + clamp h (minHeight band100) (maxHeight band100)"
    by blast
  then have "hm_get hm 1 1 = Inr h" "pz (g' ! 3) = pz (flat4 ! 3) + clamp h (- 100) 100"
    by (simp_all add: band100_def numeral_3_eq_3)
  with run show ?thesis by blast
qed

section \<open>\<open>THREE.Terrain.Worley.PoissonDisks\<close>\<close>

text \<open>
  The background grid is a sparse array of sparse arrays of points, indexed by the cell
  coordinates \<open>Math.floor(coordinate / cellSize)\<close>; a missing row or cell is \<open>undefined\<close>.
\<close>

type_synonym grid = "int \<rightharpoonup> (int \<rightharpoonup> vector2)"

text \<open>
  \<open>arr.splice(Math.floor(Math.random() * arr.length), 1)[0]\<close>, for the random draw \<open>r\<close>:
  the removed element (\<open>undefined\<close> when the start index is past the end) and the array
  that remains. \<open>splice\<close> counts a negative start from the end and clips it.
\<close>

definition splice_start :: "int \<Rightarrow> nat \<Rightarrow> nat" where
  "splice_start start len =
     (if start < 0 then nat (max (int len + start) 0) else min (nat start) len)"

definition removeAndReturnRandomElement :: "real \<Rightarrow> vector2 list \<Rightarrow> vector2 option \<times> vector2 list" where
  "removeAndReturnRandomElement r arr =
     (let start = splice_start \<lfloor>r * real (length arr)\<rfloor> (length arr)
      in (if start < length arr then Some (arr ! start) else None,
          take start arr @ drop (start + 1) arr))"

definition putInGrid :: "grid \<Rightarrow> vector2 \<Rightarrow> real \<Rightarrow> grid" where
  "putInGrid grid point cellSize =
     (let gx = \<lfloor>vx point / cellSize\<rfloor>; gy = \<lfloor>vy point / cellSize\<rfloor>;
          row = (case grid gx of None \<Rightarrow> Map.empty | Some row \<Rightarrow> row)
      in grid(gx \<mapsto> row(gy \<mapsto> point)))"

definition inRectangle :: "vector2 \<Rightarrow> real \<Rightarrow> real \<Rightarrow> bool" where
  "inRectangle point width height \<longleftrightarrow>
     vx point \<ge> 0 \<and> vy point \<ge> 0 \<and> vx point \<le> width + 1 \<and> vy point \<le> height + 1"

text \<open>
  The two loops of \<open>inNeighborhood\<close> visit the nine cells around the cell of the point and
  return \<open>true\<close> at the first hit.
\<close>

definition inNeighborhood :: "grid \<Rightarrow> vector2 \<Rightarrow> real \<Rightarrow> real \<Rightarrow> bool" where
  "inNeighborhood grid point minDist cellSize =
     (let gx = \<lfloor>vx point / cellSize\<rfloor>; gy = \<lfloor>vy point / cellSize\<rfloor>
      in list_ex (\<lambda>x. list_ex (\<lambda>y.
           x \<noteq> gx \<and> y \<noteq> gy \<and>
           (case grid x of None \<Rightarrow> False | Some row \<Rightarrow> row y \<noteq> None) \<and>
           (let cx = real_of_int x * cellSize; cy = real_of_int y * cellSize
            in sqrt ((vx point - cx) * (vx point - cx) + (vy point - cy) * (vy point - cy)) < minDist))
         [gy - 1, gy, gy + 1]) [gx - 1, gx, gx + 1])"

text \<open>\<open>generateRandomPointAround\<close> draws the radius first (\<open>r1\<close>) and then the angle (\<open>r2\<close>).\<close>

definition generateRandomPointAround :: "vector2 \<Rightarrow> real \<Rightarrow> real \<Rightarrow> real \<Rightarrow> vector2" where
  "generateRandomPointAround point minDist r1 r2 =
     (let radius = minDist * (r1 + 1); angle = 2 * pi * r2
      in \<lparr>vx = vx point + radius * cos angle, vy = vy point + radius * sin angle\<rparr>)"

record pd_state =
  grid_of :: grid
  processList :: "vector2 list"
  samplePoints :: "vector2 list"
  draws :: nat

text \<open>
  The loop \<open>for (var i = 0; i < numPoints; i++)\<close> of candidates around \<open>point\<close>, with its
  \<open>break\<close> when the sample has \<open>numPoints\<close> points.
\<close>

function PD_candidates ::
  "(nat \<Rightarrow> real) \<Rightarrow> real \<Rightarrow> real \<Rightarrow> nat \<Rightarrow> real \<Rightarrow> real \<Rightarrow> vector2 \<Rightarrow> nat \<Rightarrow> pd_state \<Rightarrow> pd_state" where
  "PD_candidates rnd width height numPoints minDist cellSize point i st =
     (if i < numPoints
      then let newPoint = generateRandomPointAround point minDist (rnd (draws st)) (rnd (draws st + 1));
               st1 = st\<lparr>draws := draws st + 2\<rparr>
           in if inRectangle newPoint width height \<and>
                 \<not> inNeighborhood (grid_of st1) newPoint minDist cellSize
              then let st2 = st1\<lparr>processList := processList st1 @ [newPoint],
                                 samplePoints := samplePoints st1 @ [newPoint],
                                 grid_of := putInGrid (grid_of st1) newPoint cellSize\<rparr>
                   in if length (samplePoints st2) \<ge> numPoints then st2
                      else PD_candidates rnd width height numPoints minDist cellSize point (i + 1) st2
              else PD_candidates rnd width height numPoints minDist cellSize point (i + 1) st1
      else st)"
  by pat_completeness auto
termination
  by (relation "measure (\<lambda>(rnd, width, height, numPoints, minDist, cellSize, point, i, st). numPoints - i)")
    auto

declare PD_candidates.simps [simp del]

text \<open>
  The loop \<open>while (processList.length)\<close>. \<open>fuel\<close> bounds the number of removal iterations:
  the result is \<open>None\<close> when the loop would need more of them. An \<open>undefined\<close> point makes
  \<open>generateRandomPointAround\<close> throw as soon as the candidate loop runs.
\<close>

fun PD_loop ::
  "nat \<Rightarrow> (nat \<Rightarrow> real) \<Rightarrow> real \<Rightarrow> real \<Rightarrow> nat \<Rightarrow> real \<Rightarrow> real \<Rightarrow> nat \<Rightarrow> pd_state \<Rightarrow>
     (failure + pd_state) option" where
  "PD_loop 0 rnd width height numPoints minDist cellSize count st =
     (if processList st = [] then Some (Inr st) else None)"
| "PD_loop (Suc fuel) rnd width height numPoints minDist cellSize count st =
     (if processList st = [] then Some (Inr st)
      else
        let (removed, rest) = removeAndReturnRandomElement (rnd (draws st)) (processList st);
            st1 = st\<lparr>processList := rest, draws := draws st + 1\<rparr>
        in case (case removed of
                   None \<Rightarrow> if 0 < numPoints then Inl TypeError else Inr st1
                 | Some point \<Rightarrow>
                     Inr (PD_candidates rnd width height numPoints minDist cellSize point 0 st1)) of
             Inl e \<Rightarrow> Some (Inl e)
           | Inr st2 \<Rightarrow>
               if length (samplePoints st2) \<ge> numPoints then Some (Inr st2)
               else if count + 1 > numPoints * numPoints then Some (Inr st2)
               else PD_loop fuel rnd width height numPoints minDist cellSize (count + 1) st2)"

text \<open>
  \<open>PoissonDisks(width, height, numPoints, minDist)\<close>; the fourth argument is overwritten
  before it is read. A \<open>numPoints\<close> of 0 stands for an omitted one.
  \<open>minDist = Math.sqrt((width + height) * 2.5);
    if (minDist > numPoints * 0.67) minDist = numPoints * 0.67;
    var cellSize = minDist / Math.sqrt(2);
    if (cellSize < 2) cellSize = 2;\<close>
\<close>

definition PD_numPoints :: "real \<Rightarrow> real \<Rightarrow> nat \<Rightarrow> nat" where
  "PD_numPoints width height numPoints =
     (if numPoints \<noteq> 0 then numPoints
      else if nat \<lfloor>sqrt (width * height * 0.2)\<rfloor> \<noteq> 0 then nat \<lfloor>sqrt (width * height * 0.2)\<rfloor>
      else 1)"

definition PD_minDist :: "real \<Rightarrow> real \<Rightarrow> nat \<Rightarrow> real" where
  "PD_minDist width height numPoints =
     (let minDist = sqrt ((width + height) * 2.5)
      in if minDist > real numPoints * 0.67 then real numPoints * 0.67 else minDist)"

definition PD_cellSize :: "real \<Rightarrow> real" where
  "PD_cellSize minDist = (let cellSize = minDist / sqrt 2 in if cellSize < 2 then 2 else cellSize)"

text \<open>The state before the loop: the first point is in both lists and in the grid.\<close>

definition PD_start :: "(nat \<Rightarrow> real) \<Rightarrow> real \<Rightarrow> real \<Rightarrow> real \<Rightarrow> pd_state" where
  "PD_start rnd width height cellSize =
     (let firstPoint = \<lparr>vx = rnd 0 * width, vy = rnd 1 * height\<rparr>
      in \<lparr>grid_of = putInGrid Map.empty firstPoint cellSize,
          processList = [firstPoint], samplePoints = [firstPoint], draws = 2\<rparr>)"

definition PoissonDisks ::
  "nat \<Rightarrow> real \<Rightarrow> real \<Rightarrow> nat \<Rightarrow> (nat \<Rightarrow> real) \<Rightarrow> (failure + vector2 list) option" where
  "PoissonDisks fuel width height numPoints0 rnd =
     (let numPoints = PD_numPoints width height numPoints0;
          minDist = PD_minDist width height numPoints;
          cellSize = PD_cellSize minDist
      in map_option (map_sum id samplePoints)
           (PD_loop fuel rnd width height numPoints minDist cellSize 0
              (PD_start rnd width height cellSize)))"

lemma PD_candidates_lengths:
  "length (processList (PD_candidates rnd width height numPoints minDist cellSize point i st)) +
     length (samplePoints st) =
   length (processList st) +
     length (samplePoints (PD_candidates rnd width height numPoints minDist cellSize point i st))"
proof (induction "numPoints - i" arbitrary: i st)
  case 0
  then have "\<not> i < numPoints" by simp
  then show ?case by (subst (1 2) PD_candidates.simps) simp
next
  case (Suc k)
  then have i: "i < numPoints" and k: "k = numPoints - (i + 1)" by simp_all
  define newPoint where
    "newPoint = generateRandomPointAround point minDist (rnd (draws st)) (rnd (draws st + 1))"
  define st1 where "st1 = st\<lparr>draws := draws st + 2\<rparr>"
  define st2 where "st2 = st1\<lparr>processList := processList st1 @ [newPoint],
                                 samplePoints := samplePoints st1 @ [newPoint],
                                 grid_of := putInGrid (grid_of st1) newPoint cellSize\<rparr>"
  define accepted where "accepted \<longleftrightarrow> inRectangle newPoint width height \<and>
                 \<not> inNeighborhood (grid_of st1) newPoint minDist cellSize"
  have unfold: "PD_candidates rnd width height numPoints minDist cellSize point i st =
      (if accepted
       then if length (samplePoints st2) \<ge> numPoints then st2
            else PD_candidates rnd width height numPoints minDist cellSize point (i + 1) st2
       else PD_candidates rnd width height numPoints minDist cellSize point (i + 1) st1)"
    using i by (subst PD_candidates.simps)
      (simp add: Let_def newPoint_def st1_def st2_def accepted_def)
  have len1: "length (processList st1) = length (processList st)"
    "length (samplePoints st1) = length (samplePoints st)" by (simp_all add: st1_def)
  have len2: "length (processList st2) = length (processList st) + 1"
    "length (samplePoints st2) = length (samplePoints st) + 1" by (simp_all add: st2_def st1_def)
  show ?case
  proof (cases accepted)
    case False
    with Suc.hyps(1) [OF k, of st1] len1 show ?thesis unfolding unfold by simp
  next
    case True
    show ?thesis
    proof (cases "length (samplePoints st2) \<ge> numPoints")
      case True
      with \<open>accepted\<close> len2 show ?thesis unfolding unfold by simp
    next
      case False
      with \<open>accepted\<close> Suc.hyps(1) [OF k, of st2] len2 show ?thesis unfolding unfold by simp
    qed
  qed
qed

lemma removeAndReturnRandomElement_defined:
  assumes "0 \<le> r" "r < 1" "arr \<noteq> []"
  shows "\<exists>point rest. removeAndReturnRandomElement r arr = (Some point, rest) \<and>
           length rest + 1 = length arr"
proof -
  define len where "len = length arr"
  define i where "i = \<lfloor>r * real len\<rfloor>"
  have len: "0 < len" using assms(3) by (simp add: len_def)
  have "0 \<le> r * real len" using assms(1) by simp
  then have i0: "0 \<le> i" by (simp add: i_def)
  have "r * real len < 1 * real len" using assms(2) len by (intro mult_strict_right_mono) simp_all
  then have "r * real len < real_of_int (int len)" by simp
  then have "i < int len" unfolding i_def by (simp only: floor_less_iff)
  with i0 have start: "splice_start i len = nat i" "nat i < len"
    by (simp_all add: splice_start_def)
  have "length (take (nat i) arr @ drop (nat i + 1) arr) + 1 = length arr"
    using start(2) by (simp add: len_def)
  then show ?thesis
    using start by (simp add: removeAndReturnRandomElement_def Let_def len_def [symmetric]
        i_def [symmetric])
qed

lemma PD_loop_returns:
  assumes rnd: "\<forall>k. 0 \<le> rnd k \<and> rnd k < 1" and n: "1 \<le> numPoints"
  shows "length (processList st) + count = length (samplePoints st) \<Longrightarrow>
         (1 \<le> count \<longrightarrow> length (samplePoints st) < numPoints) \<Longrightarrow>
         numPoints \<le> fuel + count \<Longrightarrow>
         \<exists>st'. PD_loop fuel rnd width height numPoints minDist cellSize count st = Some (Inr st') \<and>
            (numPoints \<le> length (samplePoints st') \<or> processList st' = [])"
proof (induction fuel arbitrary: count st)
  case 0
  have "processList st = []"
  proof (rule ccontr)
    assume "processList st \<noteq> []"
    then have "0 < length (processList st)" by simp
    with 0 n show False by (cases "count = 0") simp_all
  qed
  then show ?case by simp
next
  case (Suc fuel)
  show ?case
  proof (cases "processList st = []")
    case True
    then show ?thesis by simp
  next
    case False
    from rnd have "0 \<le> rnd (draws st)" "rnd (draws st) < 1" by simp_all
    from removeAndReturnRandomElement_defined [OF this False] obtain point rest where
      removed: "removeAndReturnRandomElement (rnd (draws st)) (processList st) = (Some point, rest)"
      and rest: "length rest + 1 = length (processList st)" by blast
    define st1 where "st1 = st\<lparr>processList := rest, draws := draws st + 1\<rparr>"
    define st2 where "st2 = PD_candidates rnd width height numPoints minDist cellSize point 0 st1"
    have unfold: "PD_loop (Suc fuel) rnd width height numPoints minDist cellSize count st =
        (if length (samplePoints st2) \<ge> numPoints then Some (Inr st2)
         else if count + 1 > numPoints * numPoints then Some (Inr st2)
         else PD_loop fuel rnd width height numPoints minDist cellSize (count + 1) st2)"
      using False by (simp add: removed st1_def st2_def)
    have "length (processList st2) + length (samplePoints st1) =
        length (processList st1) + length (samplePoints st2)"
      unfolding st2_def by (rule PD_candidates_lengths)
    then have balance: "length (processList st2) + (count + 1) = length (samplePoints st2)"
      using rest Suc.prems(1) by (simp add: st1_def)
    show ?thesis
    proof (cases "length (samplePoints st2) \<ge> numPoints")
      case True
      then show ?thesis unfolding unfold by simp
    next
      case False
      with balance have "count + 1 < numPoints" by simp
      also have "numPoints \<le> numPoints * numPoints" by simp
      finally have below_cap: "\<not> count + 1 > numPoints * numPoints" by simp
      from False have "1 \<le> count + 1 \<longrightarrow> length (samplePoints st2) < numPoints" by simp
      moreover have "numPoints \<le> fuel + (count + 1)" using Suc.prems(3) by simp
      ultimately have "\<exists>st'. PD_loop fuel rnd width height numPoints minDist cellSize (count + 1) st2
          = Some (Inr st') \<and> (numPoints \<le> length (samplePoints st') \<or> processList st' = [])"
        using balance by (intro Suc.IH)
      with False below_cap show ?thesis unfolding unfold by simp
    qed
  qed
qed

text \<open>
  The sampler returns. For \<open>numPoints \<ge> 1\<close> and random draws in \<open>[0, 1)\<close>, \<open>PoissonDisks\<close>
  returns within \<open>numPoints\<^sup>2\<close> removal iterations, for every width and height: the loop
  ends with the sample at \<open>numPoints\<close> points or more, or with the active list empty, and
  the function returns the points accumulated so far, not an error.
\<close>

theorem PoissonDisks_terminates:
  assumes "1 \<le> numPoints" and "\<forall>k. 0 \<le> rnd k \<and> rnd k < 1" and "numPoints * numPoints \<le> fuel"
  shows "\<exists>st'. PD_loop fuel rnd width height numPoints (PD_minDist width height numPoints)
                 (PD_cellSize (PD_minDist width height numPoints)) 0
                 (PD_start rnd width height (PD_cellSize (PD_minDist width height numPoints)))
               = Some (Inr st') \<and>
           (numPoints \<le> length (samplePoints st') \<or> processList st' = []) \<and>
           PoissonDisks fuel width height numPoints rnd = Some (Inr (samplePoints st'))"
proof -
  define minDist where "minDist = PD_minDist width height numPoints"
  define st0 where "st0 = PD_start rnd width height (PD_cellSize minDist)"
  have "numPoints \<le> numPoints * numPoints" by simp
  then have "numPoints \<le> fuel" using assms(3) by (rule order_trans)
  then have fuel: "numPoints \<le> fuel + 0" by simp
  have "length (processList st0) + 0 = length (samplePoints st0)"
    by (simp add: st0_def PD_start_def Let_def)
  moreover have "(1::nat) \<le> 0 \<longrightarrow> length (samplePoints st0) < numPoints" by simp
  ultimately obtain st' where
    loop: "PD_loop fuel rnd width height numPoints minDist (PD_cellSize minDist) 0 st0 = Some (Inr st')"
    and stop: "numPoints \<le> length (samplePoints st') \<or> processList st' = []"
    using PD_loop_returns [OF assms(2,1) _ _ fuel] by blast
  have "PD_numPoints width height numPoints = numPoints"
    using assms(1) by (simp add: PD_numPoints_def)
  then have "PoissonDisks fuel width height numPoints rnd =
      map_option (map_sum id samplePoints)
        (PD_loop fuel rnd width height numPoints minDist (PD_cellSize minDist) 0 st0)"
    by (simp add: PoissonDisks_def Let_def minDist_def st0_def)
  with loop have "PoissonDisks fuel width height numPoints rnd = Some (Inr (samplePoints st'))"
    by simp
  with loop stop show ?thesis unfolding minDist_def st0_def by blast
qed

subsection \<open>The size of the sample\<close>

text \<open>
  Once the sample is below \<open>numPoints\<close> at the head of the loop it never grows beyond
  \<open>numPoints\<close>. The first point makes this so for \<open>numPoints \<ge> 2\<close>, but not for
  \<open>numPoints = 1\<close>.
\<close>

lemma PD_candidates_sample_bound:
  "length (samplePoints st) < numPoints \<Longrightarrow>
   length (samplePoints st)
     \<le> length (samplePoints (PD_candidates rnd width height numPoints minDist cellSize point i st)) \<and>
   length (samplePoints (PD_candidates rnd width height numPoints minDist cellSize point i st))
     \<le> numPoints"
proof (induction "numPoints - i" arbitrary: i st)
  case 0
  then have "\<not> i < numPoints" by simp
  with 0 show ?case by (subst (1 2) PD_candidates.simps) simp
next
  case (Suc k)
  then have i: "i < numPoints" and k: "k = numPoints - (i + 1)" by simp_all
  define newPoint where
    "newPoint = generateRandomPointAround point minDist (rnd (draws st)) (rnd (draws st + 1))"
  define st1 where "st1 = st\<lparr>draws := draws st + 2\<rparr>"
  define st2 where "st2 = st1\<lparr>processList := processList st1 @ [newPoint],
                                 samplePoints := samplePoints st1 @ [newPoint],
                                 grid_of := putInGrid (grid_of st1) newPoint cellSize\<rparr>"
  define accepted where "accepted \<longleftrightarrow> inRectangle newPoint width height \<and>
                 \<not> inNeighborhood (grid_of st1) newPoint minDist cellSize"
  have unfold: "PD_candidates rnd width height numPoints minDist cellSize point i st =
      (if accepted
       then if length (samplePoints st2) \<ge> numPoints then st2
            else PD_candidates rnd width height numPoints minDist cellSize point (i + 1) st2
       else PD_candidates rnd width height numPoints minDist cellSize point (i + 1) st1)"
    using i by (subst PD_candidates.simps)
      (simp add: Let_def newPoint_def st1_def st2_def accepted_def)
  have len1: "length (samplePoints st1) = length (samplePoints st)" by (simp add: st1_def)
  have len2: "length (samplePoints st2) = length (samplePoints st) + 1"
    by (simp add: st2_def st1_def)
  show ?case
  proof (cases accepted)
    case False
    with Suc.hyps(1) [OF k, of st1] len1 Suc.prems show ?thesis unfolding unfold by simp
  next
    case True
    show ?thesis
    proof (cases "length (samplePoints st2) \<ge> numPoints")
      case True
      with \<open>accepted\<close> len2 Suc.prems show ?thesis unfolding unfold by simp
    next
      case False
      then have "length (samplePoints st2) < numPoints" by simp
      from Suc.hyps(1) [OF k this] \<open>accepted\<close> False len2 show ?thesis unfolding unfold by simp
    qed
  qed
qed

lemma PD_loop_sample_bound:
  "length (samplePoints st) < numPoints \<Longrightarrow>
   PD_loop fuel rnd width height numPoints minDist cellSize count st = Some (Inr st') \<Longrightarrow>
   length (samplePoints st) \<le> length (samplePoints st') \<and> length (samplePoints st') \<le> numPoints"
proof (induction fuel arbitrary: count st)
  case 0
  then show ?case by (simp split: if_splits)
next
  case (Suc fuel)
  show ?case
  proof (cases "processList st = []")
    case True
    with Suc.prems show ?thesis by simp
  next
    case False
    obtain removed rest where
      removed: "removeAndReturnRandomElement (rnd (draws st)) (processList st) = (removed, rest)"
      by (cases "removeAndReturnRandomElement (rnd (draws st)) (processList st)")
    define st1 where "st1 = st\<lparr>processList := rest, draws := draws st + 1\<rparr>"
    have len1: "length (samplePoints st1) = length (samplePoints st)" by (simp add: st1_def)
    show ?thesis
    proof (cases removed)
      case None
      with Suc.prems False removed show ?thesis by (simp add: st1_def [symmetric])
    next
      case (Some point)
      define st2 where "st2 = PD_candidates rnd width height numPoints minDist cellSize point 0 st1"
      have unfold: "PD_loop (Suc fuel) rnd width height numPoints minDist cellSize count st =
          (if length (samplePoints st2) \<ge> numPoints then Some (Inr st2)
           else if count + 1 > numPoints * numPoints then Some (Inr st2)
           else PD_loop fuel rnd width height numPoints minDist cellSize (count + 1) st2)"
        using False by (simp add: removed Some st1_def st2_def)
      from PD_candidates_sample_bound [of st1 numPoints rnd width height minDist cellSize point 0]
        Suc.prems(1) len1
      have cand: "length (samplePoints st) \<le> length (samplePoints st2)"
        "length (samplePoints st2) \<le> numPoints" by (simp_all add: st2_def)
      show ?thesis
      proof (cases "length (samplePoints st2) \<ge> numPoints \<or> count + 1 > numPoints * numPoints")
        case True
        with Suc.prems(2) have "st' = st2" unfolding unfold by (auto split: if_splits)
        with cand show ?thesis by simp
      next
        case False
        then have "length (samplePoints st2) < numPoints" by simp
        moreover from False Suc.prems(2) have
          "PD_loop fuel rnd width height numPoints minDist cellSize (count + 1) st2 = Some (Inr st')"
          unfolding unfold by simp
        ultimately have "length (samplePoints st2) \<le> length (samplePoints st') \<and>
            length (samplePoints st') \<le> numPoints" by (rule Suc.IH)
        with cand show ?thesis by simp
      qed
    qed
  qed
qed

lemma PoissonDisks_size_bound:
  assumes "2 \<le> numPoints" "PoissonDisks fuel width height numPoints rnd = Some (Inr points)"
  shows "1 \<le> length points \<and> length points \<le> numPoints"
proof -
  define minDist where "minDist = PD_minDist width height numPoints"
  define st0 where "st0 = PD_start rnd width height (PD_cellSize minDist)"
  have "PD_numPoints width height numPoints = numPoints"
    using assms(1) by (simp add: PD_numPoints_def)
  then have "PoissonDisks fuel width height numPoints rnd =
      map_option (map_sum id samplePoints)
        (PD_loop fuel rnd width height numPoints minDist (PD_cellSize minDist) 0 st0)"
    by (simp add: PoissonDisks_def Let_def minDist_def st0_def)
  with assms(2) obtain r where
    r: "PD_loop fuel rnd width height numPoints minDist (PD_cellSize minDist) 0 st0 = Some r"
    "map_sum id samplePoints r = Inr points" by auto
  then obtain st' where st': "r = Inr st'" "points = samplePoints st'" by (cases r) auto
  have start: "length (samplePoints st0) = 1" by (simp add: st0_def PD_start_def Let_def)
  then have "length (samplePoints st0) < numPoints" using assms(1) by simp
  from PD_loop_sample_bound [OF this r(1) [unfolded st'(1)]] start st'(2) show ?thesis by simp
qed

subsection \<open>Two runs of the sampler\<close>

text \<open>
  The random draws of the runs below, all in \<open>[0, 1)\<close>: 0.2 and 0.2 place the first point at
  \<open>(1, 1)\<close> in a \<open>5 \<times> 5\<close> domain; every later draw is 0, except the sixth, which is 0.5.
\<close>

definition draws4 :: "nat \<Rightarrow> real" where
  "draws4 k = (if k < 2 then 1 / 5 else if k = 5 then 1 / 2 else 0)"

lemma sqrt_25: "sqrt 25 = 5"
  by (rule real_sqrt_unique) simp_all

lemma sqrt_2_bounds: "201 / 200 < sqrt 2"
  by (rule real_less_rsqrt) (simp add: power2_eq_square)

lemma PD_minDist_5_5_3: "PD_minDist 5 5 3 = 201 / 100"
  by (simp add: PD_minDist_def Let_def sqrt_25)

lemma PD_minDist_5_5_1: "PD_minDist 5 5 1 = 67 / 100"
  by (simp add: PD_minDist_def Let_def sqrt_25)

lemma PD_cellSize_small: "0 \<le> minDist \<Longrightarrow> minDist \<le> 201 / 100 \<Longrightarrow> PD_cellSize minDist = 2"
proof -
  assume m: "0 \<le> minDist" "minDist \<le> 201 / 100"
  have pos: "0 < sqrt 2" by simp
  have "minDist < 2 * sqrt 2" using m(2) sqrt_2_bounds by linarith
  then have "minDist / sqrt 2 < 2" using pos by (simp add: pos_divide_less_eq)
  then show ?thesis by (simp add: PD_cellSize_def Let_def)
qed

lemma PD_start_draws4:
  "PD_start draws4 5 5 2 =
     \<lparr>grid_of = [0 \<mapsto> [0 \<mapsto> \<lparr>vx = 1, vy = 1\<rparr>]],
      processList = [\<lparr>vx = 1, vy = 1\<rparr>], samplePoints = [\<lparr>vx = 1, vy = 1\<rparr>], draws = 2\<rparr>"
  by (simp add: PD_start_def Let_def draws4_def putInGrid_def)

lemma remove_first:
  "removeAndReturnRandomElement 0 [p] = (Some p, [])"
  by (simp add: removeAndReturnRandomElement_def splice_start_def)

lemma first_candidate:
  "generateRandomPointAround \<lparr>vx = 1, vy = 1\<rparr> (201 / 100) 0 0 = \<lparr>vx = 301 / 100, vy = 1\<rparr>"
  by (simp add: generateRandomPointAround_def Let_def)

lemma second_candidate:
  "generateRandomPointAround \<lparr>vx = 1, vy = 1\<rparr> (201 / 100) (1 / 2) 0 = \<lparr>vx = 803 / 200, vy = 1\<rparr>"
  by (simp add: generateRandomPointAround_def Let_def)

lemma first_not_inNeighborhood:
  "\<not> inNeighborhood [0 \<mapsto> [0 \<mapsto> \<lparr>vx = 1, vy = 1\<rparr>]] \<lparr>vx = 301 / 100, vy = 1\<rparr> (201 / 100) 2"
  by (simp add: inNeighborhood_def Let_def)

lemma second_not_inNeighborhood:
  "\<not> inNeighborhood [0 \<mapsto> [0 \<mapsto> \<lparr>vx = 1, vy = 1\<rparr>], 1 \<mapsto> [0 \<mapsto> \<lparr>vx = 301 / 100, vy = 1\<rparr>]]
       \<lparr>vx = 803 / 200, vy = 1\<rparr> (201 / 100) 2"
  by (simp add: inNeighborhood_def Let_def)

lemma put_first:
  "putInGrid [0 \<mapsto> [0 \<mapsto> \<lparr>vx = 1, vy = 1\<rparr>]] \<lparr>vx = 301 / 100, vy = 1\<rparr> 2 =
     [0 \<mapsto> [0 \<mapsto> \<lparr>vx = 1, vy = 1\<rparr>], 1 \<mapsto> [0 \<mapsto> \<lparr>vx = 301 / 100, vy = 1\<rparr>]]"
  by (simp add: putInGrid_def Let_def)

lemma draws4_unit: "\<forall>k. 0 \<le> draws4 k \<and> draws4 k < 1"
  by (simp add: draws4_def)

lemma PD_candidates_draws4_3:
  "PD_candidates draws4 5 5 3 (201 / 100) 2 \<lparr>vx = 1, vy = 1\<rparr> 0
     \<lparr>grid_of = [0 \<mapsto> [0 \<mapsto> \<lparr>vx = 1, vy = 1\<rparr>]],
      processList = [], samplePoints = [\<lparr>vx = 1, vy = 1\<rparr>], draws = 3\<rparr> =
   \<lparr>grid_of = putInGrid [0 \<mapsto> [0 \<mapsto> \<lparr>vx = 1, vy = 1\<rparr>], 1 \<mapsto> [0 \<mapsto> \<lparr>vx = 301 / 100, vy = 1\<rparr>]]
                \<lparr>vx = 803 / 200, vy = 1\<rparr> 2,
    processList = [\<lparr>vx = 301 / 100, vy = 1\<rparr>, \<lparr>vx = 803 / 200, vy = 1\<rparr>],
    samplePoints = [\<lparr>vx = 1, vy = 1\<rparr>, \<lparr>vx = 301 / 100, vy = 1\<rparr>, \<lparr>vx = 803 / 200, vy = 1\<rparr>],
    draws = 7\<rparr>"
  apply (subst PD_candidates.simps)
  apply (simp add: draws4_def first_candidate first_not_inNeighborhood put_first inRectangle_def
      Let_def)
  apply (subst PD_candidates.simps)
  apply (simp add: draws4_def second_candidate second_not_inNeighborhood inRectangle_def Let_def)
  done

lemma PD_loop_draws4_3:
  "PD_loop 9 draws4 5 5 3 (201 / 100) 2 0 (PD_start draws4 5 5 2) =
   Some (Inr
    \<lparr>grid_of = putInGrid [0 \<mapsto> [0 \<mapsto> \<lparr>vx = 1, vy = 1\<rparr>], 1 \<mapsto> [0 \<mapsto> \<lparr>vx = 301 / 100, vy = 1\<rparr>]]
                \<lparr>vx = 803 / 200, vy = 1\<rparr> 2,
     processList = [\<lparr>vx = 301 / 100, vy = 1\<rparr>, \<lparr>vx = 803 / 200, vy = 1\<rparr>],
     samplePoints = [\<lparr>vx = 1, vy = 1\<rparr>, \<lparr>vx = 301 / 100, vy = 1\<rparr>, \<lparr>vx = 803 / 200, vy = 1\<rparr>],
     draws = 7\<rparr>)"
proof -
  have first: "draws4 2 = 0" by (simp add: draws4_def)
  have "PD_loop (Suc 8) draws4 5 5 3 (201 / 100) 2 0 (PD_start draws4 5 5 2) =
   Some (Inr
    \<lparr>grid_of = putInGrid [0 \<mapsto> [0 \<mapsto> \<lparr>vx = 1, vy = 1\<rparr>], 1 \<mapsto> [0 \<mapsto> \<lparr>vx = 301 / 100, vy = 1\<rparr>]]
                \<lparr>vx = 803 / 200, vy = 1\<rparr> 2,
     processList = [\<lparr>vx = 301 / 100, vy = 1\<rparr>, \<lparr>vx = 803 / 200, vy = 1\<rparr>],
     samplePoints = [\<lparr>vx = 1, vy = 1\<rparr>, \<lparr>vx = 301 / 100, vy = 1\<rparr>, \<lparr>vx = 803 / 200, vy = 1\<rparr>],
     draws = 7\<rparr>)"
    unfolding PD_start_draws4
    by (subst PD_loop.simps(2)) (simp add: first remove_first PD_candidates_draws4_3)
  then show ?thesis by simp
qed

text \<open>
  C4. The minimum separation fails: \<open>PoissonDisks(5, 5, 3)\<close> with the draws above returns
  \<open>(1, 1)\<close>, \<open>(3.01, 1)\<close> and \<open>(4.015, 1)\<close>. The last two are 1.005 apart, less than
  \<open>minDist = 2.01\<close>: \<open>inNeighborhood\<close> looks only at the four diagonal cells, and measures the
  distance to the corner of a cell, not to the point stored in it.
\<close>

theorem PoissonDisks_close_pair:
  "PoissonDisks 9 5 5 3 draws4 =
     Some (Inr [\<lparr>vx = 1, vy = 1\<rparr>, \<lparr>vx = 301 / 100, vy = 1\<rparr>, \<lparr>vx = 803 / 200, vy = 1\<rparr>]) \<and>
   sqrt ((301 / 100 - 803 / 200) * (301 / 100 - 803 / 200) + (1 - 1) * (1 - 1))
     < PD_minDist 5 5 3"
proof -
  have cell: "PD_cellSize (201 / 100) = 2" by (rule PD_cellSize_small) simp_all
  have "PD_numPoints 5 5 3 = 3" by (simp add: PD_numPoints_def)
  then have "PoissonDisks 9 5 5 3 draws4 =
     Some (Inr [\<lparr>vx = 1, vy = 1\<rparr>, \<lparr>vx = 301 / 100, vy = 1\<rparr>, \<lparr>vx = 803 / 200, vy = 1\<rparr>])"
    by (simp add: PoissonDisks_def Let_def PD_minDist_5_5_3 cell PD_loop_draws4_3)
  moreover have "sqrt ((301 / 100 - 803 / 200) * (301 / 100 - 803 / 200) + (1 - 1) * (1 - 1))
      = 201 / 200"
    by (rule real_sqrt_unique) (simp_all add: power2_eq_square)
  ultimately show ?thesis by (simp add: PD_minDist_5_5_3)
qed

lemma PD_candidates_draws4_1:
  "PD_candidates draws4 5 5 (Suc 0) (67 / 100) 2 \<lparr>vx = 1, vy = 1\<rparr> 0
     \<lparr>grid_of = [0 \<mapsto> [0 \<mapsto> \<lparr>vx = 1, vy = 1\<rparr>]],
      processList = [], samplePoints = [\<lparr>vx = 1, vy = 1\<rparr>], draws = 3\<rparr> =
   \<lparr>grid_of = putInGrid [0 \<mapsto> [0 \<mapsto> \<lparr>vx = 1, vy = 1\<rparr>]] \<lparr>vx = 167 / 100, vy = 1\<rparr> 2,
    processList = [\<lparr>vx = 167 / 100, vy = 1\<rparr>],
    samplePoints = [\<lparr>vx = 1, vy = 1\<rparr>, \<lparr>vx = 167 / 100, vy = 1\<rparr>],
    draws = 5\<rparr>"
proof -
  have candidate: "generateRandomPointAround \<lparr>vx = 1, vy = 1\<rparr> (67 / 100) 0 0 =
      \<lparr>vx = 167 / 100, vy = 1\<rparr>"
    by (simp add: generateRandomPointAround_def Let_def)
  have free: "\<not> inNeighborhood [0 \<mapsto> [0 \<mapsto> \<lparr>vx = 1, vy = 1\<rparr>]] \<lparr>vx = 167 / 100, vy = 1\<rparr> (67 / 100) 2"
    by (simp add: inNeighborhood_def Let_def)
  show ?thesis
    by (subst PD_candidates.simps)
      (simp add: draws4_def candidate free inRectangle_def Let_def)
qed

text \<open>
  C9. The bound \<open>numPoints\<close> on the size of the sample fails for \<open>numPoints = 1\<close>: the first
  point already fills the sample, the loop still runs once, and \<open>PoissonDisks(5, 5, 1)\<close>
  with the draws above returns two points.
\<close>

theorem PoissonDisks_two_points_for_one:
  "PoissonDisks 1 5 5 1 draws4 =
     Some (Inr [\<lparr>vx = 1, vy = 1\<rparr>, \<lparr>vx = 167 / 100, vy = 1\<rparr>]) \<and>
   (1::nat) < length [\<lparr>vx = 1, vy = 1\<rparr>, \<lparr>vx = 167 / 100, vy = (1::real)\<rparr>]"
proof -
  have cell: "PD_cellSize (67 / 100) = 2" by (rule PD_cellSize_small) simp_all
  have first: "draws4 2 = 0" by (simp add: draws4_def)
  have numPoints: "PD_numPoints 5 5 1 = 1" by (simp add: PD_numPoints_def)
  have "PD_loop (Suc 0) draws4 5 5 (Suc 0) (67 / 100) 2 0 (PD_start draws4 5 5 2) =
    Some (Inr
     \<lparr>grid_of = putInGrid [0 \<mapsto> [0 \<mapsto> \<lparr>vx = 1, vy = 1\<rparr>]] \<lparr>vx = 167 / 100, vy = 1\<rparr> 2,
      processList = [\<lparr>vx = 167 / 100, vy = 1\<rparr>],
      samplePoints = [\<lparr>vx = 1, vy = 1\<rparr>, \<lparr>vx = 167 / 100, vy = 1\<rparr>],
      draws = 5\<rparr>)"
    unfolding PD_start_draws4
    by (subst PD_loop.simps(2)) (simp add: first remove_first PD_candidates_draws4_1 Let_def)
  then have loop: "PD_loop 1 draws4 5 5 1 (67 / 100) 2 0 (PD_start draws4 5 5 2) =
    Some (Inr
     \<lparr>grid_of = putInGrid [0 \<mapsto> [0 \<mapsto> \<lparr>vx = 1, vy = 1\<rparr>]] \<lparr>vx = 167 / 100, vy = 1\<rparr> 2,
      processList = [\<lparr>vx = 167 / 100, vy = 1\<rparr>],
      samplePoints = [\<lparr>vx = 1, vy = 1\<rparr>, \<lparr>vx = 167 / 100, vy = 1\<rparr>],
      draws = 5\<rparr>)"
    unfolding One_nat_def .
  have "PoissonDisks 1 5 5 1 draws4 =
     Some (Inr [\<lparr>vx = 1, vy = 1\<rparr>, \<lparr>vx = 167 / 100, vy = 1\<rparr>])"
    unfolding PoissonDisks_def Let_def numPoints PD_minDist_5_5_1 cell loop by simp
  then show ?thesis by simp
qed

text \<open>
  C5. The loop does not stop as soon as the number of accepted points reaches \<open>numPoints\<close>.
  In \<open>PoissonDisks(5, 5, 1)\<close> with the draws above, the first point brings the sample to
  \<open>numPoints = 1\<close> before the loop is entered; the loop still runs one removal iteration,
  draws a candidate and appends it, and only then stops, with two points in the sample
  and five random numbers drawn. The length of the sample is compared with \<open>numPoints\<close>
  after an append and at the end of an iteration, never before the first iteration.
\<close>

theorem PoissonDisks_loop_overruns:
  "PD_numPoints 5 5 1 = 1 \<and>
   length (samplePoints (PD_start draws4 5 5 (PD_cellSize (PD_minDist 5 5 1)))) = 1 \<and>
   draws (PD_start draws4 5 5 (PD_cellSize (PD_minDist 5 5 1))) = 2 \<and>
   map_option (map_sum id (\<lambda>st. (length (samplePoints st), length (processList st), draws st)))
     (PD_loop 1 draws4 5 5 1 (PD_minDist 5 5 1) (PD_cellSize (PD_minDist 5 5 1)) 0
        (PD_start draws4 5 5 (PD_cellSize (PD_minDist 5 5 1)))) =
     Some (Inr (2, 1, 5))"
proof -
  have cell: "PD_cellSize (67 / 100) = 2" by (rule PD_cellSize_small) simp_all
  have first: "draws4 2 = 0" by (simp add: draws4_def)
  have numPoints: "PD_numPoints 5 5 1 = 1" by (simp add: PD_numPoints_def)
  have "PD_loop (Suc 0) draws4 5 5 (Suc 0) (67 / 100) 2 0 (PD_start draws4 5 5 2) =
    Some (Inr
     \<lparr>grid_of = putInGrid [0 \<mapsto> [0 \<mapsto> \<lparr>vx = 1, vy = 1\<rparr>]] \<lparr>vx = 167 / 100, vy = 1\<rparr> 2,
      processList = [\<lparr>vx = 167 / 100, vy = 1\<rparr>],
      samplePoints = [\<lparr>vx = 1, vy = 1\<rparr>, \<lparr>vx = 167 / 100, vy = 1\<rparr>],
      draws = 5\<rparr>)"
    unfolding PD_start_draws4
    by (subst PD_loop.simps(2)) (simp add: first remove_first PD_candidates_draws4_1 Let_def)
  then have loop: "PD_loop 1 draws4 5 5 1 (67 / 100) 2 0 (PD_start draws4 5 5 2) =
    Some (Inr
     \<lparr>grid_of = putInGrid [0 \<mapsto> [0 \<mapsto> \<lparr>vx = 1, vy = 1\<rparr>]] \<lparr>vx = 167 / 100, vy = 1\<rparr> 2,
      processList = [\<lparr>vx = 167 / 100, vy = 1\<rparr>],
      samplePoints = [\<lparr>vx = 1, vy = 1\<rparr>, \<lparr>vx = 167 / 100, vy = 1\<rparr>],
      draws = 5\<rparr>)"
    unfolding One_nat_def .
  have start: "length (samplePoints (PD_start draws4 5 5 2)) = 1" "draws (PD_start draws4 5 5 2) = 2"
    by (simp_all add: PD_start_draws4)
  show ?thesis
    unfolding PD_minDist_5_5_1 cell loop using numPoints start by simp
qed

theorem PoissonDisks_terminates_witness:
  "\<exists>st'. PD_loop 1 draws4 5 5 1 (PD_minDist 5 5 1) (PD_cellSize (PD_minDist 5 5 1)) 0
            (PD_start draws4 5 5 (PD_cellSize (PD_minDist 5 5 1))) = Some (Inr st') \<and>
          PoissonDisks 1 5 5 1 draws4 = Some (Inr (samplePoints st'))"
proof -
  have "(1::nat) \<le> 1" "(1::nat) * 1 \<le> 1" by simp_all
  from PoissonDisks_terminates [OF this(1) draws4_unit this(2), of 5 5] show ?thesis by blast
qed

end
